theory Spec2Isabelle
  imports Main "HOL-Library.AList"
begin

section \<open>Signals and the platform's signal set\<close>

text \<open>
  The package \<open>interrupt\<close> consists of the variable \<open>Signals\<close> and the function
  \<open>Handle\<close> (\<open>interrupt.go\<close>). \<open>Handle\<close> is four statements long; everything it does
  happens inside the Go standard library (\<open>context\<close>, \<open>os/signal\<close>) and the scheduler.
  The development below therefore embeds \<open>Handle\<close> over an explicit process state:
  a store of contexts, the signal channels, the table of signal handlers of
  \<open>os/signal\<close>, the pool of goroutines and the package variable \<open>Signals\<close>.
  Concurrency is an interleaving of atomic events (\<open>step\<close>), so that "for every
  schedule" is "for every list of events".
\<close>

datatype signal = Interrupt | SIGTERM | SIGKILL | SIGSTOP | Other_signal nat

text \<open>
  Package \<open>os/signal\<close>: "The signals SIGKILL and SIGSTOP may not be caught by a
  program, and therefore cannot be affected by this package."
\<close>

definition catchable :: "signal \<Rightarrow> bool" where
  "catchable sig = (sig \<noteq> SIGKILL \<and> sig \<noteq> SIGSTOP)"

datatype platform = Unix_like | Non_unix

text \<open>
  Modelled from the spec: the declaration of the variable \<open>Signals\<close> lives in
  build-tagged files that are not part of \<open>interrupt.go\<close>. The package comment says
  that "the Signals variable extends os.Interrupt with syscall.SIGTERM in unix-like
  platforms"; the specification says that without a termination signal it holds the
  portable interrupt signal only. \<open>Signals pf\<close> is the value the declaration gives the
  variable on platform \<open>pf\<close>; the variable itself is the field \<open>signals_var\<close> of the
  state.
\<close>

definition Signals :: "platform \<Rightarrow> signal list" where
  "Signals pf = (case pf of Unix_like \<Rightarrow> [Interrupt, SIGTERM] | Non_unix \<Rightarrow> [Interrupt])"

section \<open>Process state\<close>

type_synonym ctx_id = nat
type_synonym chan_id = nat

text \<open>
  A context value. \<open>ancestors\<close> is the chain of parents it was derived from, nearest
  parent first, empty for a root such as \<open>context.Background()\<close>; \<open>cancelCtx\<close> embeds
  its parent, so the chain never changes. \<open>attached\<close> is the part of that chain whose
  cancellation reaches the context within the call of \<open>cancel\<close>: the parents that hold
  it, directly or through their children, in their \<open>children\<close> maps.
  \<open>is_done\<close> is "the Done channel is closed" (equivalently \<open>Err() != nil\<close>).
  \<open>user_cancel\<close> says that the surrounding program can make the context done itself:
  it holds the \<open>CancelFunc\<close>, or the context carries a deadline, or the context is of
  the program's own making. \<open>foreign\<close> marks a context that is not one of package
  \<open>context\<close>'s own: another implementation of the interface \<open>context.Context\<close>, with
  a Done channel of its own, which has no \<open>children\<close> map to attach to.
\<close>

record ctx =
  ancestors :: "ctx_id list"
  attached :: "ctx_id list"
  is_done :: bool
  user_cancel :: bool
  foreign :: bool

text \<open>The \<open>stop\<close> method of a \<open>signalCtx\<close>, bound to its context and its channel.\<close>

datatype cancel_func = Stop_func ctx_id chan_id

text \<open>
  The goroutines of the model: the one \<open>signal.NotifyContext\<close> starts
  (\<open>select { case <-c.ch: c.cancel(); case <-c.Done(): }\<close>), the one \<open>Handle\<close>
  starts (\<open><-ctx.Done(); cancel()\<close>), the one package \<open>context\<close> starts to watch a
  parent of another implementation
  (\<open>select { case <-parent.Done(): child.cancel(); case <-child.Done(): }\<close>), and a
  goroutine that has returned.
\<close>

datatype goroutine =
    Watcher chan_id ctx_id
  | Waiter ctx_id cancel_func
  | Propagator ctx_id ctx_id
  | Exited

record state =
  ctxs :: "ctx list"
  chans :: "signal option list"
  handlers :: "(chan_id \<times> signal set) list"
  goroutines :: "goroutine list"
  defaulted :: "signal list"
  signals_var :: "signal list"

text \<open>
  \<open>chans\<close>: the channels made by \<open>make(chan os.Signal, 1)\<close>, each a buffer of capacity
  one. \<open>handlers\<close>: the map \<open>handlers.m\<close> of \<open>os/signal\<close>, from a channel to the set of
  signals it wants. \<open>defaulted\<close>: the signals that were left to the platform's default
  action, in order of arrival; what that action does to the process is the platform's
  business and is not modelled. \<open>signals_var\<close>: the exported package variable
  \<open>Signals\<close>, which \<open>Handle\<close> reads at every call and which, like every exported
  variable of a Go package, the program can assign.
\<close>

datatype error = Panic string

definition background :: ctx where
  "background =
     \<lparr>ancestors = [], attached = [], is_done = False, user_cancel = False, foreign = False\<rparr>"

definition init_state :: "platform \<Rightarrow> state" where
  "init_state pf =
     \<lparr>ctxs = [background], chans = [], handlers = [], goroutines = [], defaulted = [],
      signals_var = Signals pf\<rparr>"

section \<open>Package context\<close>

text \<open>
  The operations of this section and of the next belong to the Go standard library, not
  to the package under verification. They are written down from the library's documented
  behaviour (the documentation is quoted where a result depends on it), each as one atomic
  state transformer: the library guards them with the mutexes of \<open>cancelCtx\<close> and of
  the handler table. A context reference is a position in the store; a reference to
  a position that does not exist has no counterpart in Go (there are no dangling
  interface values), and the reads below are total on it only so that every definition
  computes.
\<close>

definition valid_ctx :: "state \<Rightarrow> ctx_id \<Rightarrow> bool" where
  "valid_ctx s c = (c < length (ctxs s))"

definition ctx_done :: "state \<Rightarrow> ctx_id \<Rightarrow> bool" where
  "ctx_done s c = (c < length (ctxs s) \<and> is_done (ctxs s ! c))"

definition foreign_ctx :: "state \<Rightarrow> ctx_id \<Rightarrow> bool" where
  "foreign_ctx s c = (c < length (ctxs s) \<and> foreign (ctxs s ! c))"

definition ancestors_of :: "state \<Rightarrow> ctx_id \<Rightarrow> ctx_id list" where
  "ancestors_of s c = (if c < length (ctxs s) then ancestors (ctxs s ! c) else [])"

definition attached_of :: "state \<Rightarrow> ctx_id \<Rightarrow> ctx_id list" where
  "attached_of s c = (if c < length (ctxs s) then attached (ctxs s ! c) else [])"

definition go :: "goroutine \<Rightarrow> state \<Rightarrow> state" where
  "go g s = s\<lparr>goroutines := goroutines s @ [g]\<rparr>"

definition mark :: "ctx_id \<Rightarrow> ctx_id \<times> ctx \<Rightarrow> ctx" where
  "mark c ix = (if fst ix = c \<or> c \<in> set (attached (snd ix)) then (snd ix)\<lparr>is_done := True\<rparr> else snd ix)"

text \<open>
  \<open>cancelCtx.cancel\<close>: nothing when the context is already cancelled; otherwise the
  context is closed and, through the \<open>children\<close> maps, every context attached to it.
\<close>

definition cancel :: "ctx_id \<Rightarrow> state \<Rightarrow> state" where
  "cancel c s =
     (if ctx_done s c then s
      else s\<lparr>ctxs := map (mark c) (enumerate 0 (ctxs s))\<rparr>)"

text \<open>The child enters the \<open>children\<close> map of its parent.\<close>

definition attach :: "ctx_id \<Rightarrow> ctx_id \<Rightarrow> state \<Rightarrow> state" where
  "attach p c s =
     s\<lparr>ctxs := (ctxs s)[c := (ctxs s ! c)\<lparr>attached := p # attached_of s p\<rparr>]\<rparr>"

text \<open>
  \<open>propagateCancel\<close>: a child of a parent that is already done is cancelled at once; a
  child of one of the package's own contexts is attached to it; for a parent of another
  implementation the package starts a goroutine that waits for the parent's Done channel
  and then cancels the child. (A parent with an \<open>AfterFunc\<close> method is asked to run
  the cancellation instead, which it does in a goroutine of its own after it is done:
  the same \<open>Propagator\<close> stands for it. A parent that can never be done, such as
  \<open>context.Background()\<close>, is left out of the bookkeeping by the library and attached
  here, which nothing observes, since nothing cancels it.)
\<close>

definition propagateCancel :: "ctx_id \<Rightarrow> ctx_id \<Rightarrow> state \<Rightarrow> state" where
  "propagateCancel p c s =
     (if ctx_done s p then cancel c s
      else if foreign_ctx s p then go (Propagator p c) s
      else attach p c s)"

text \<open>
  \<open>context.WithCancel\<close>. A nil parent panics with "cannot create context from nil
  parent". The flag \<open>held\<close> records whether the caller's \<open>CancelFunc\<close> ends up in the
  hands of the surrounding program.
\<close>

definition new_ctx :: "ctx_id \<Rightarrow> bool \<Rightarrow> state \<Rightarrow> state" where
  "new_ctx p held s =
     s\<lparr>ctxs := ctxs s @
        [\<lparr>ancestors = p # ancestors_of s p, attached = [], is_done = False,
          user_cancel = held, foreign = False\<rparr>]\<rparr>"

definition WithCancel :: "ctx_id option \<Rightarrow> bool \<Rightarrow> state \<Rightarrow> error + (ctx_id \<times> state)" where
  "WithCancel parent held s =
     (case parent of
        None \<Rightarrow> Inl (Panic ''cannot create context from nil parent'')
      | Some p \<Rightarrow>
          let c = length (ctxs s)
          in Inr (c, propagateCancel p c (new_ctx p held s)))"

text \<open>
  A context of another implementation, made by the program: what it wraps is not
  visible to package \<open>context\<close>, and its own code decides when its Done channel closes.
\<close>

definition new_foreign :: "state \<Rightarrow> state" where
  "new_foreign s =
     s\<lparr>ctxs := ctxs s @
        [\<lparr>ancestors = [], attached = [], is_done = False, user_cancel = True, foreign = True\<rparr>]\<rparr>"

section \<open>Package os/signal\<close>

definition make_chan :: "state \<Rightarrow> chan_id \<times> state" where
  "make_chan s = (length (chans s), s\<lparr>chans := chans s @ [None]\<rparr>)"

text \<open>
  \<open>signal.Notify(c, sig...)\<close>: "If no signals are provided, all incoming signals will be
  relayed to c. Otherwise, just the provided signals will." The signals are added to
  what the channel's handler already wants.
\<close>

definition sigmask :: "signal list \<Rightarrow> signal set" where
  "sigmask sigs = (if sigs = [] then UNIV else set sigs)"

definition Notify :: "chan_id \<Rightarrow> signal list \<Rightarrow> state \<Rightarrow> state" where
  "Notify ch sigs s =
     (let h = (case map_of (handlers s) ch of None \<Rightarrow> {} | Some h \<Rightarrow> h)
      in s\<lparr>handlers := AList.update ch (h \<union> sigmask sigs) (handlers s)\<rparr>)"

text \<open>\<open>signal.Stop(c)\<close>: the channel's handler is deleted; nothing when there is none.\<close>

definition Stop :: "chan_id \<Rightarrow> state \<Rightarrow> state" where
  "Stop ch s = s\<lparr>handlers := AList.delete ch (handlers s)\<rparr>"

text \<open>\<open>select { case c <- sig: default: }\<close>: a send that never blocks.\<close>

definition send :: "signal \<Rightarrow> chan_id \<Rightarrow> state \<Rightarrow> state" where
  "send sig ch s =
     (if ch < length (chans s) \<and> chans s ! ch = None
      then s\<lparr>chans := (chans s)[ch := Some sig]\<rparr> else s)"

definition recv :: "chan_id \<Rightarrow> state \<Rightarrow> state" where
  "recv ch s = s\<lparr>chans := (chans s)[ch := None]\<rparr>"

definition readable :: "state \<Rightarrow> chan_id \<Rightarrow> bool" where
  "readable s ch = (ch < length (chans s) \<and> chans s ! ch \<noteq> None)"

text \<open>\<open>process(sig)\<close>: the signal is sent to every channel whose handler wants it.\<close>

definition relay :: "signal \<Rightarrow> chan_id \<times> signal set \<Rightarrow> state \<Rightarrow> state" where
  "relay sig h s = (if sig \<in> snd h then send sig (fst h) s else s)"

definition process :: "signal \<Rightarrow> state \<Rightarrow> state" where
  "process sig s = fold (relay sig) (handlers s) s"

text \<open>
  A signal reaches the package when it can be caught and some handler wants it
  (\<open>handlers.ref[n] > 0\<close>); every other signal takes the platform's default action,
  \<open>SIGKILL\<close> and \<open>SIGSTOP\<close> always.
\<close>

definition intercepted :: "state \<Rightarrow> signal \<Rightarrow> bool" where
  "intercepted s sig = (catchable sig \<and> list_ex (\<lambda>h. sig \<in> snd h) (handlers s))"

definition deliver :: "signal \<Rightarrow> state \<Rightarrow> state" where
  "deliver sig s =
     (if intercepted s sig then process sig s
      else s\<lparr>defaulted := defaulted s @ [sig]\<rparr>)"

definition call_cancel :: "cancel_func \<Rightarrow> state \<Rightarrow> state" where
  "call_cancel f s = (case f of Stop_func c ch \<Rightarrow> Stop ch (cancel c s))"

text \<open>
  \<open>signal.NotifyContext(parent, signals...)\<close>:
  \<^verbatim>\<open>
  ctx, cancel := context.WithCancel(parent)
  c := &signalCtx{Context: ctx, cancel: cancel, signals: signals}
  c.ch = make(chan os.Signal, 1)
  Notify(c.ch, c.signals...)
  if ctx.Err() == nil {
      go func() { select { case <-c.ch: c.cancel(); case <-c.Done(): } }()
  }
  return c, c.stop
  \<close>
\<close>

definition NotifyContext ::
  "ctx_id option \<Rightarrow> signal list \<Rightarrow> state \<Rightarrow> error + ((ctx_id \<times> cancel_func) \<times> state)" where
  "NotifyContext parent signals s =
     (case WithCancel parent False s of
        Inl e \<Rightarrow> Inl e
      | Inr (c, s1) \<Rightarrow>
          let (ch, s2) = make_chan s1;
              s3 = Notify ch signals s2;
              s4 = (if \<not> ctx_done s3 c then go (Watcher ch c) s3 else s3)
          in Inr ((c, Stop_func c ch), s4))"

section \<open>Handle\<close>

text \<open>
  \<^verbatim>\<open>
  func Handle(ctx context.Context) context.Context {
      ctx, cancel := signal.NotifyContext(ctx, Signals...)
      go func() {
          <-ctx.Done()
          cancel()
      }()
      return ctx
  }
  \<close>
  The parameter \<open>signals\<close> is the value that the read of the package variable
  \<open>Signals\<close> yields at the call (a call in state \<open>s\<close> passes \<open>signals_var s\<close>, see
  \<open>step\<close>); the parent is \<open>None\<close> for a nil interface value. The result is the derived
  context and the state in which the goroutine has been started and has not yet run.
\<close>

definition Handle :: "signal list \<Rightarrow> ctx_id option \<Rightarrow> state \<Rightarrow> error + (ctx_id \<times> state)" where
  "Handle signals ctx s =
     (case NotifyContext ctx signals s of
        Inl e \<Rightarrow> Inl e
      | Inr ((ctx', cancel'), s1) \<Rightarrow> Inr (ctx', go (Waiter ctx' cancel') s1))"

text \<open>
  The implementation that the documentation comment of \<open>Handle\<close> gives as its
  equivalent, statement by statement:
  \<^verbatim>\<open>
  ctx, cancel := signal.NotifyContext(ctx, interrupt.Signals...)
  go func() {
    <-ctx.Done()
    cancel()
  }()
  \<close>
  followed by the use of the rebound \<open>ctx\<close>.
\<close>

definition doc_NotifyContext_step ::
  "signal list \<Rightarrow> ctx_id option \<Rightarrow> state \<Rightarrow> error + ((ctx_id \<times> cancel_func) \<times> state)" where
  "doc_NotifyContext_step signals ctx s = NotifyContext ctx signals s"

definition doc_go_step :: "(ctx_id \<times> cancel_func) \<times> state \<Rightarrow> ctx_id \<times> state" where
  "doc_go_step r = (fst (fst r), go (Waiter (fst (fst r)) (snd (fst r))) (snd r))"

definition Handle_doc :: "signal list \<Rightarrow> ctx_id option \<Rightarrow> state \<Rightarrow> error + (ctx_id \<times> state)" where
  "Handle_doc signals ctx s = map_sum id doc_go_step (doc_NotifyContext_step signals ctx s)"

section \<open>Scheduling and the environment\<close>

definition finish :: "nat \<Rightarrow> state \<Rightarrow> state" where
  "finish g s = s\<lparr>goroutines := (goroutines s)[g := Exited]\<rparr>"

text \<open>
  One scheduling of goroutine \<open>g\<close>. A goroutine whose receive is not ready stays
  blocked. When both cases of a \<open>select\<close> are ready, Go picks one at random: \<open>pick\<close>
  chooses the first case.
\<close>

definition run_goroutine :: "nat \<Rightarrow> bool \<Rightarrow> state \<Rightarrow> state" where
  "run_goroutine g pick s =
     (if g < length (goroutines s) then
        (case goroutines s ! g of
           Watcher ch c \<Rightarrow>
             if readable s ch \<and> (pick \<or> \<not> ctx_done s c) then finish g (cancel c (recv ch s))
             else if ctx_done s c then finish g s
             else s
         | Waiter c f \<Rightarrow> if ctx_done s c then finish g (call_cancel f s) else s
         | Propagator p c \<Rightarrow>
             if ctx_done s p \<and> (pick \<or> \<not> ctx_done s c) then finish g (cancel c s)
             else if ctx_done s c then finish g s
             else s
         | Exited \<Rightarrow> s)
      else s)"

text \<open>
  The events of a run: the operating system delivers a signal; the program makes done a
  context that it can make done (it calls the \<open>CancelFunc\<close>, the deadline expires, a
  context of another implementation closes its Done channel); the scheduler runs a
  goroutine; the program derives a context with \<open>context.WithCancel\<close>; the program
  calls \<open>Handle\<close>, which reads the variable \<open>Signals\<close>; the program makes a context of
  another implementation; the program assigns the variable \<open>Signals\<close>. A call takes an
  existing context as parent. A call of \<open>Handle\<close> is one event: between its statements
  it works on objects that nothing else can reach yet (the new context, the new channel),
  so interleaving other events with them changes nothing that the events can observe.
\<close>

datatype event =
    Deliver signal
  | Cancel ctx_id
  | Run nat bool
  | Call_WithCancel ctx_id
  | Call_Handle ctx_id
  | Call_Foreign
  | Assign_Signals "signal list"

definition result_state :: "error + ('a \<times> state) \<Rightarrow> state \<Rightarrow> state" where
  "result_state r s = (case r of Inl e \<Rightarrow> s | Inr x \<Rightarrow> snd x)"

fun step :: "event \<Rightarrow> state \<Rightarrow> state" where
  "step (Deliver sig) s = deliver sig s"
| "step (Cancel c) s = (if valid_ctx s c \<and> user_cancel (ctxs s ! c) then cancel c s else s)"
| "step (Run g pick) s = run_goroutine g pick s"
| "step (Call_WithCancel p) s =
     (if valid_ctx s p then result_state (WithCancel (Some p) True s) s else s)"
| "step (Call_Handle p) s =
     (if valid_ctx s p then result_state (Handle (signals_var s) (Some p) s) s else s)"
| "step Call_Foreign s = new_foreign s"
| "step (Assign_Signals sigs) s = s\<lparr>signals_var := sigs\<rparr>"

definition run :: "event list \<Rightarrow> state \<Rightarrow> state" where
  "run evs s = fold step evs s"

section \<open>Well-formed states and the footprint of one call\<close>

text \<open>
  A state is well formed when nothing in it refers to a context or a channel that has
  not been created yet, a context is attached to contexts of its parent chain only, and
  the handler table has one entry per channel at most (it is a map in Go). The initial
  state is well formed and every event keeps a state well formed (\<open>reachable_wf\<close>
  below), so the hypothesis excludes no state of a program.
\<close>

definition wf_goroutine :: "state \<Rightarrow> goroutine \<Rightarrow> bool" where
  "wf_goroutine s g =
     (case g of
        Watcher ch c \<Rightarrow> ch < length (chans s) \<and> c < length (ctxs s)
      | Waiter c f \<Rightarrow>
          c < length (ctxs s) \<and>
          (case f of Stop_func c' ch \<Rightarrow> c' < length (ctxs s) \<and> ch < length (chans s))
      | Propagator p c \<Rightarrow> p < length (ctxs s) \<and> c < length (ctxs s)
      | Exited \<Rightarrow> True)"

definition wf_ctx :: "state \<Rightarrow> ctx \<Rightarrow> bool" where
  "wf_ctx s x =
     (list_all (\<lambda>a. a < length (ctxs s)) (ancestors x) \<and>
      list_all (\<lambda>a. a \<in> set (ancestors x)) (attached x))"

definition wf_state :: "state \<Rightarrow> bool" where
  "wf_state s =
     (list_all (wf_ctx s) (ctxs s) \<and>
      list_all (wf_goroutine s) (goroutines s) \<and>
      list_all (\<lambda>h. fst h < length (chans s)) (handlers s) \<and>
      distinct (map fst (handlers s)))"

text \<open>
  A goroutine touches the pair (context \<open>c\<close>, channel \<open>ch\<close>) when it can cancel \<open>c\<close>,
  receive from \<open>ch\<close> or stop \<open>ch\<close>.
\<close>

definition touches :: "ctx_id \<Rightarrow> chan_id \<Rightarrow> goroutine \<Rightarrow> bool" where
  "touches c ch g =
     (case g of
        Watcher ch' c' \<Rightarrow> ch' = ch \<or> c' = c
      | Waiter c' f \<Rightarrow> (case f of Stop_func c'' ch' \<Rightarrow> c'' = c \<or> ch' = ch)
      | Propagator p' c' \<Rightarrow> c' = c
      | Exited \<Rightarrow> False)"

text \<open>
  What one call \<open>Handle(p)\<close> leaves behind, and what stays true of it in every later
  state: the derived context \<open>c\<close> with parent \<open>p\<close> (of another implementation exactly
  if \<open>fp\<close>), its channel \<open>ch\<close> registered for the signals \<open>m\<close>, and, in the pool, the
  goroutine that watches a parent of another implementation at position \<open>gp\<close>, the
  watcher of \<open>NotifyContext\<close> at position \<open>g\<close> (both as long as \<open>c\<close> is not done) and
  the waiter of \<open>Handle\<close> at position \<open>w\<close>. The registration exists exactly as long as
  the waiter has not returned.
\<close>

definition handle_inv ::
  "ctx_id \<Rightarrow> bool \<Rightarrow> ctx_id \<Rightarrow> chan_id \<Rightarrow> nat \<Rightarrow> nat \<Rightarrow> nat \<Rightarrow> signal set \<Rightarrow> state \<Rightarrow> bool" where
  "handle_inv p fp c ch gp g w m s =
     (p < c \<and> c < length (ctxs s) \<and> ch < length (chans s) \<and> w < length (goroutines s) \<and>
      distinct (map fst (handlers s)) \<and>
      foreign (ctxs s ! p) = fp \<and>
      \<not> user_cancel (ctxs s ! c) \<and>
      (\<not> fp \<and> ctx_done s p \<longrightarrow> ctx_done s c) \<and>
      (\<not> ctx_done s c \<longrightarrow>
         (if fp then attached (ctxs s ! c) = [] \<and>
                     gp < length (goroutines s) \<and> goroutines s ! gp = Propagator p c
          else attached (ctxs s ! c) = p # attached (ctxs s ! p))) \<and>
      (\<not> ctx_done s c \<longrightarrow> g < length (goroutines s) \<and> goroutines s ! g = Watcher ch c) \<and>
      (\<forall>i < length (goroutines s).
          touches c ch (goroutines s ! i) \<longrightarrow>
            i = w \<or> goroutines s ! i = Watcher ch c \<or> goroutines s ! i = Propagator p c) \<and>
      (if goroutines s ! w = Exited
       then map_of (handlers s) ch = None \<and> ctx_done s c
       else goroutines s ! w = Waiter c (Stop_func c ch) \<and> map_of (handlers s) ch = Some m))"

text \<open>No signal of \<open>m\<close> has reached the channel, and \<open>c\<close> is done only if its parent is.\<close>

definition quiet :: "ctx_id \<Rightarrow> ctx_id \<Rightarrow> chan_id \<Rightarrow> state \<Rightarrow> bool" where
  "quiet p c ch s = (chans s ! ch = None \<and> (ctx_done s c \<longrightarrow> ctx_done s p))"

text \<open>A signal waits in the channel, unless \<open>c\<close> is done already.\<close>

definition pending :: "ctx_id \<Rightarrow> chan_id \<Rightarrow> state \<Rightarrow> bool" where
  "pending c ch s = (readable s ch \<or> ctx_done s c)"

text \<open>The event delivers a signal of \<open>m\<close> that a program can catch.\<close>

definition delivers :: "signal set \<Rightarrow> event \<Rightarrow> bool" where
  "delivers m e = (case e of Deliver sig \<Rightarrow> sig \<in> m \<and> catchable sig | _ \<Rightarrow> False)"

definition assigns :: "event \<Rightarrow> bool" where
  "assigns e = (case e of Assign_Signals sigs \<Rightarrow> True | _ \<Rightarrow> False)"

text \<open>
  How a state grows when the program creates something: existing contexts keep their
  fields (they can only become done, and only if \<open>b\<close> and they are attached to the
  new context, which in a well-formed state none is), channels and goroutines are added
  at the end, the new goroutines touch nothing that existed, and the handlers of the
  existing channels stay.
\<close>

definition extends :: "bool \<Rightarrow> state \<Rightarrow> state \<Rightarrow> bool" where
  "extends b s s' =
     (length (ctxs s) \<le> length (ctxs s') \<and>
      (\<forall>i < length (ctxs s).
          ancestors (ctxs s' ! i) = ancestors (ctxs s ! i) \<and>
          attached (ctxs s' ! i) = attached (ctxs s ! i) \<and>
          user_cancel (ctxs s' ! i) = user_cancel (ctxs s ! i) \<and>
          foreign (ctxs s' ! i) = foreign (ctxs s ! i) \<and>
          (ctx_done s' i \<longleftrightarrow>
             ctx_done s i \<or> (b \<and> length (ctxs s) \<in> set (attached (ctxs s ! i))))) \<and>
      (\<exists>xs. chans s' = chans s @ xs) \<and>
      (distinct (map fst (handlers s)) \<longrightarrow> distinct (map fst (handlers s'))) \<and>
      (\<forall>ch < length (chans s). map_of (handlers s') ch = map_of (handlers s) ch) \<and>
      (\<exists>xs. goroutines s' = goroutines s @ xs \<and>
           (\<forall>x \<in> set xs. \<forall>c < length (ctxs s). \<forall>ch < length (chans s). \<not> touches c ch x)))"

section \<open>Example states\<close>

text \<open>
  A program on a unix-like platform that has derived one cancellable context (number 1)
  from \<open>context.Background()\<close> (number 0), and the state in which \<open>Handle\<close> returns
  when that program calls it on context 1.
\<close>

definition program_state :: state where
  "program_state = run [Call_WithCancel 0] (init_state Unix_like)"

definition handled_state :: state where
  "handled_state =
     \<lparr>ctxs = [background,
              \<lparr>ancestors = [0], attached = [0], is_done = False, user_cancel = True,
                foreign = False\<rparr>,
              \<lparr>ancestors = [1, 0], attached = [1, 0], is_done = False, user_cancel = False,
                foreign = False\<rparr>],
      chans = [None],
      handlers = [(0, {Interrupt, SIGTERM})],
      goroutines = [Watcher 0 2, Waiter 2 (Stop_func 2 0)],
      defaulted = [],
      signals_var = [Interrupt, SIGTERM]\<rparr>"

text \<open>
  A program that has made a context of another implementation (number 1), and the
  state in which \<open>Handle\<close> returns when that program calls it on context 1.
\<close>

definition foreign_program_state :: state where
  "foreign_program_state = run [Call_Foreign] (init_state Unix_like)"

definition foreign_handled_state :: state where
  "foreign_handled_state =
     \<lparr>ctxs = [background,
              \<lparr>ancestors = [], attached = [], is_done = False, user_cancel = True,
                foreign = True\<rparr>,
              \<lparr>ancestors = [1], attached = [], is_done = False, user_cancel = False,
                foreign = False\<rparr>],
      chans = [None],
      handlers = [(0, {Interrupt, SIGTERM})],
      goroutines = [Propagator 1 2, Watcher 0 2, Waiter 2 (Stop_func 2 0)],
      defaulted = [],
      signals_var = [Interrupt, SIGTERM]\<rparr>"

text \<open>
  A program that has derived two cancellable contexts (1 and 2) from
  \<open>context.Background()\<close>, independent of each other.
\<close>

definition two_parents_state :: state where
  "two_parents_state = run [Call_WithCancel 0, Call_WithCancel 0] (init_state Unix_like)"

text \<open>
  That program after \<open>Handle\<close> on context 1, and after a further \<open>WithCancel\<close> and
  \<open>Handle\<close> on context 2.
\<close>

definition handled_first_state :: state where
  "handled_first_state = run [Call_Handle 1] two_parents_state"

definition handled_both_state :: state where
  "handled_both_state = run [Call_WithCancel 0, Call_Handle 2] handled_first_state"

text \<open>
  The program of the first example after it has assigned the empty list to the variable
  \<open>Signals\<close>, and the state in which \<open>Handle\<close> returns when it then calls it on
  context 1.
\<close>

definition emptied_state :: state where
  "emptied_state = run [Assign_Signals []] program_state"

definition emptied_handled_state :: state where
  "emptied_handled_state = run [Call_Handle 1] emptied_state"

section \<open>Elementary facts about the operations\<close>

lemma cancel_frame [simp]:
  "chans (cancel x s) = chans s"
  "handlers (cancel x s) = handlers s"
  "goroutines (cancel x s) = goroutines s"
  "defaulted (cancel x s) = defaulted s"
  "signals_var (cancel x s) = signals_var s"
  "length (ctxs (cancel x s)) = length (ctxs s)"
  by (simp_all add: cancel_def)

lemma cancel_nth:
  "i < length (ctxs s) \<Longrightarrow>
   ctxs (cancel x s) ! i =
     (if \<not> ctx_done s x \<and> (i = x \<or> x \<in> set (attached (ctxs s ! i)))
      then (ctxs s ! i)\<lparr>is_done := True\<rparr> else ctxs s ! i)"
  by (auto simp: cancel_def mark_def nth_enumerate_eq)

lemma cancel_ancestors [simp]:
  "i < length (ctxs s) \<Longrightarrow> ancestors (ctxs (cancel x s) ! i) = ancestors (ctxs s ! i)"
  by (simp add: cancel_nth)

lemma cancel_attached [simp]:
  "i < length (ctxs s) \<Longrightarrow> attached (ctxs (cancel x s) ! i) = attached (ctxs s ! i)"
  by (simp add: cancel_nth)

lemma cancel_foreign [simp]:
  "i < length (ctxs s) \<Longrightarrow> foreign (ctxs (cancel x s) ! i) = foreign (ctxs s ! i)"
  by (simp add: cancel_nth)

lemma foreign_ctx_cancel [simp]: "foreign_ctx (cancel x s) i = foreign_ctx s i"
  by (auto simp: foreign_ctx_def)

lemma cancel_user_cancel [simp]:
  "i < length (ctxs s) \<Longrightarrow> user_cancel (ctxs (cancel x s) ! i) = user_cancel (ctxs s ! i)"
  by (simp add: cancel_nth)

lemma ctx_done_cancel:
  "ctx_done (cancel x s) i \<longleftrightarrow>
     ctx_done s i \<or>
     (i < length (ctxs s) \<and> \<not> ctx_done s x \<and> (i = x \<or> x \<in> set (attached (ctxs s ! i))))"
  by (auto simp: ctx_done_def cancel_nth split: if_splits)

lemma ctx_done_cancel_mono: "ctx_done s i \<Longrightarrow> ctx_done (cancel x s) i"
  by (simp add: ctx_done_cancel)

lemma ctx_done_cancel_self: "x < length (ctxs s) \<Longrightarrow> ctx_done (cancel x s) x"
  by (simp add: ctx_done_cancel)

lemma cancel_idem: "cancel x (cancel x s) = cancel x s"
proof (cases "x < length (ctxs s)")
  case True
  then show ?thesis using ctx_done_cancel_self [of x s] by (simp add: cancel_def)
next
  case False
  have "map (mark x) (enumerate 0 (map (mark x) (enumerate 0 (ctxs s)))) =
        map (mark x) (enumerate 0 (ctxs s))"
    by (rule nth_equalityI) (auto simp: nth_enumerate_eq mark_def)
  with False show ?thesis by (simp add: cancel_def ctx_done_def)
qed

lemma new_ctx_frame [simp]:
  "chans (new_ctx p held s) = chans s"
  "handlers (new_ctx p held s) = handlers s"
  "goroutines (new_ctx p held s) = goroutines s"
  "defaulted (new_ctx p held s) = defaulted s"
  "signals_var (new_ctx p held s) = signals_var s"
  "length (ctxs (new_ctx p held s)) = Suc (length (ctxs s))"
  by (simp_all add: new_ctx_def)

lemma new_ctx_nth_old [simp]:
  "i < length (ctxs s) \<Longrightarrow> ctxs (new_ctx p held s) ! i = ctxs s ! i"
  by (simp add: new_ctx_def nth_append)

lemma new_ctx_nth_new [simp]:
  "ctxs (new_ctx p held s) ! length (ctxs s) =
     \<lparr>ancestors = p # ancestors_of s p, attached = [], is_done = False,
      user_cancel = held, foreign = False\<rparr>"
  by (simp add: new_ctx_def)

lemma ctx_done_new_ctx:
  "ctx_done (new_ctx p held s) i \<longleftrightarrow> ctx_done s i"
  by (auto simp: ctx_done_def new_ctx_def nth_append)

lemma foreign_ctx_new_ctx:
  "foreign_ctx (new_ctx p held s) i \<longleftrightarrow> foreign_ctx s i"
  by (auto simp: foreign_ctx_def new_ctx_def nth_append)

lemma attached_of_new_ctx:
  "i < length (ctxs s) \<Longrightarrow> attached_of (new_ctx p held s) i = attached_of s i"
  by (simp add: attached_of_def)

lemma go_frame [simp]:
  "ctxs (go g s) = ctxs s"
  "chans (go g s) = chans s"
  "handlers (go g s) = handlers s"
  "defaulted (go g s) = defaulted s"
  "signals_var (go g s) = signals_var s"
  "goroutines (go g s) = goroutines s @ [g]"
  by (simp_all add: go_def)

lemma ctx_done_go [simp]: "ctx_done (go g s) i = ctx_done s i"
  by (simp add: ctx_done_def)

lemma foreign_ctx_go [simp]: "foreign_ctx (go g s) i = foreign_ctx s i"
  by (simp add: foreign_ctx_def)

lemma attach_frame [simp]:
  "chans (attach p c s) = chans s"
  "handlers (attach p c s) = handlers s"
  "goroutines (attach p c s) = goroutines s"
  "defaulted (attach p c s) = defaulted s"
  "signals_var (attach p c s) = signals_var s"
  "length (ctxs (attach p c s)) = length (ctxs s)"
  by (simp_all add: attach_def)

lemma attach_nth:
  "i < length (ctxs s) \<Longrightarrow>
   ctxs (attach p c s) ! i =
     (if i = c then (ctxs s ! c)\<lparr>attached := p # attached_of s p\<rparr> else ctxs s ! i)"
  by (simp add: attach_def nth_list_update)

lemma attach_fields [simp]:
  "i < length (ctxs s) \<Longrightarrow> ancestors (ctxs (attach p c s) ! i) = ancestors (ctxs s ! i)"
  "i < length (ctxs s) \<Longrightarrow> user_cancel (ctxs (attach p c s) ! i) = user_cancel (ctxs s ! i)"
  "i < length (ctxs s) \<Longrightarrow> foreign (ctxs (attach p c s) ! i) = foreign (ctxs s ! i)"
  "i < length (ctxs s) \<Longrightarrow> is_done (ctxs (attach p c s) ! i) = is_done (ctxs s ! i)"
  by (simp_all add: attach_nth)

lemma attach_attached:
  "i < length (ctxs s) \<Longrightarrow>
   attached (ctxs (attach p c s) ! i) =
     (if i = c then p # attached_of s p else attached (ctxs s ! i))"
  by (simp add: attach_nth)

lemma ctx_done_attach [simp]: "ctx_done (attach p c s) i = ctx_done s i"
  by (auto simp: ctx_done_def)

lemma propagateCancel_frame [simp]:
  "chans (propagateCancel p c s) = chans s"
  "handlers (propagateCancel p c s) = handlers s"
  "defaulted (propagateCancel p c s) = defaulted s"
  "signals_var (propagateCancel p c s) = signals_var s"
  "length (ctxs (propagateCancel p c s)) = length (ctxs s)"
  by (simp_all add: propagateCancel_def)

lemma propagateCancel_goroutines:
  "goroutines (propagateCancel p c s) =
     goroutines s @ (if \<not> ctx_done s p \<and> foreign_ctx s p then [Propagator p c] else [])"
  by (simp add: propagateCancel_def)

lemma propagateCancel_fields [simp]:
  "i < length (ctxs s) \<Longrightarrow> ancestors (ctxs (propagateCancel p c s) ! i) = ancestors (ctxs s ! i)"
  "i < length (ctxs s) \<Longrightarrow> user_cancel (ctxs (propagateCancel p c s) ! i) = user_cancel (ctxs s ! i)"
  "i < length (ctxs s) \<Longrightarrow> foreign (ctxs (propagateCancel p c s) ! i) = foreign (ctxs s ! i)"
  by (simp_all add: propagateCancel_def)

lemma propagateCancel_attached:
  "i < length (ctxs s) \<Longrightarrow>
   attached (ctxs (propagateCancel p c s) ! i) =
     (if i = c \<and> \<not> ctx_done s p \<and> \<not> foreign_ctx s p then p # attached_of s p
      else attached (ctxs s ! i))"
  by (simp add: propagateCancel_def attach_attached)

lemma ctx_done_propagateCancel:
  "ctx_done (propagateCancel p c s) i \<longleftrightarrow>
     ctx_done s i \<or>
     (ctx_done s p \<and> i < length (ctxs s) \<and> \<not> ctx_done s c \<and>
      (i = c \<or> c \<in> set (attached (ctxs s ! i))))"
  by (auto simp: propagateCancel_def ctx_done_cancel)

text \<open>The context that \<open>WithCancel\<close> returns, seen through its observations.\<close>

lemma ctx_done_derive:
  "ctx_done (propagateCancel p (length (ctxs s)) (new_ctx p held s)) i \<longleftrightarrow>
     ctx_done s i \<or>
     (ctx_done s p \<and> (i = length (ctxs s) \<or>
        (i < length (ctxs s) \<and> length (ctxs s) \<in> set (attached (ctxs s ! i)))))"
  by (auto simp: ctx_done_propagateCancel ctx_done_new_ctx)
     (auto simp: ctx_done_def)

lemma attached_derive:
  "p < length (ctxs s) \<Longrightarrow>
   attached (ctxs (propagateCancel p (length (ctxs s)) (new_ctx p held s)) ! length (ctxs s)) =
     (if ctx_done s p \<or> foreign_ctx s p then [] else p # attached_of s p)"
  by (simp add: propagateCancel_attached ctx_done_new_ctx foreign_ctx_new_ctx
        attached_of_new_ctx)

lemma new_foreign_frame [simp]:
  "chans (new_foreign s) = chans s"
  "handlers (new_foreign s) = handlers s"
  "goroutines (new_foreign s) = goroutines s"
  "defaulted (new_foreign s) = defaulted s"
  "signals_var (new_foreign s) = signals_var s"
  "length (ctxs (new_foreign s)) = Suc (length (ctxs s))"
  by (simp_all add: new_foreign_def)

lemma new_foreign_nth_old [simp]:
  "i < length (ctxs s) \<Longrightarrow> ctxs (new_foreign s) ! i = ctxs s ! i"
  by (simp add: new_foreign_def nth_append)

lemma new_foreign_nth_new [simp]:
  "ctxs (new_foreign s) ! length (ctxs s) =
     \<lparr>ancestors = [], attached = [], is_done = False, user_cancel = True, foreign = True\<rparr>"
  by (simp add: new_foreign_def)

lemma ctx_done_new_foreign: "ctx_done (new_foreign s) i \<longleftrightarrow> ctx_done s i"
  by (auto simp: ctx_done_def new_foreign_def nth_append)

lemma make_chan_frame [simp]:
  "fst (make_chan s) = length (chans s)"
  "ctxs (snd (make_chan s)) = ctxs s"
  "chans (snd (make_chan s)) = chans s @ [None]"
  "handlers (snd (make_chan s)) = handlers s"
  "goroutines (snd (make_chan s)) = goroutines s"
  "defaulted (snd (make_chan s)) = defaulted s"
  "signals_var (snd (make_chan s)) = signals_var s"
  by (simp_all add: make_chan_def)

lemma ctx_done_make_chan [simp]: "ctx_done (snd (make_chan s)) i = ctx_done s i"
  by (simp add: ctx_done_def)

lemma Notify_frame [simp]:
  "ctxs (Notify ch sigs s) = ctxs s"
  "chans (Notify ch sigs s) = chans s"
  "goroutines (Notify ch sigs s) = goroutines s"
  "defaulted (Notify ch sigs s) = defaulted s"
  "signals_var (Notify ch sigs s) = signals_var s"
  by (simp_all add: Notify_def Let_def)

lemma ctx_done_Notify [simp]: "ctx_done (Notify ch sigs s) i = ctx_done s i"
  by (simp add: ctx_done_def)

lemma Notify_map_of:
  "map_of (handlers (Notify ch sigs s)) ch' =
     (if ch' = ch
      then Some ((case map_of (handlers s) ch of None \<Rightarrow> {} | Some h \<Rightarrow> h) \<union> sigmask sigs)
      else map_of (handlers s) ch')"
  by (simp add: Notify_def Let_def update_conv')

lemma Notify_distinct:
  "distinct (map fst (handlers s)) \<Longrightarrow> distinct (map fst (handlers (Notify ch sigs s)))"
  by (simp add: Notify_def Let_def distinct_update)

lemma Stop_frame [simp]:
  "ctxs (Stop ch s) = ctxs s"
  "chans (Stop ch s) = chans s"
  "goroutines (Stop ch s) = goroutines s"
  "defaulted (Stop ch s) = defaulted s"
  "signals_var (Stop ch s) = signals_var s"
  by (simp_all add: Stop_def)

lemma ctx_done_Stop [simp]: "ctx_done (Stop ch s) i = ctx_done s i"
  by (simp add: ctx_done_def)

lemma Stop_map_of:
  "map_of (handlers (Stop ch s)) ch' = (if ch' = ch then None else map_of (handlers s) ch')"
  by (simp add: Stop_def delete_conv')

lemma Stop_distinct:
  "distinct (map fst (handlers s)) \<Longrightarrow> distinct (map fst (handlers (Stop ch s)))"
  by (simp add: Stop_def distinct_delete)

lemma Stop_idem: "Stop ch (Stop ch s) = Stop ch s"
  by (simp add: Stop_def delete_idem)

lemma cancel_Stop: "cancel c (Stop ch s) = Stop ch (cancel c s)"
  by (simp add: cancel_def Stop_def ctx_done_def)

lemma send_frame [simp]:
  "ctxs (send sig ch s) = ctxs s"
  "handlers (send sig ch s) = handlers s"
  "goroutines (send sig ch s) = goroutines s"
  "defaulted (send sig ch s) = defaulted s"
  "signals_var (send sig ch s) = signals_var s"
  "length (chans (send sig ch s)) = length (chans s)"
  by (simp_all add: send_def)

lemma recv_frame [simp]:
  "ctxs (recv ch s) = ctxs s"
  "handlers (recv ch s) = handlers s"
  "goroutines (recv ch s) = goroutines s"
  "defaulted (recv ch s) = defaulted s"
  "signals_var (recv ch s) = signals_var s"
  "length (chans (recv ch s)) = length (chans s)"
  by (simp_all add: recv_def)

lemma ctx_done_recv [simp]: "ctx_done (recv ch s) i = ctx_done s i"
  by (simp add: ctx_done_def)

lemma recv_other: "ch' \<noteq> ch \<Longrightarrow> chans (recv ch' s) ! ch = chans s ! ch"
  by (simp add: recv_def)

lemma finish_frame [simp]:
  "ctxs (finish g s) = ctxs s"
  "chans (finish g s) = chans s"
  "handlers (finish g s) = handlers s"
  "defaulted (finish g s) = defaulted s"
  "signals_var (finish g s) = signals_var s"
  "goroutines (finish g s) = (goroutines s)[g := Exited]"
  by (simp_all add: finish_def)

lemma ctx_done_finish [simp]: "ctx_done (finish g s) i = ctx_done s i"
  by (simp add: ctx_done_def)

lemma relay_frame [simp]:
  "ctxs (relay sig h s) = ctxs s"
  "handlers (relay sig h s) = handlers s"
  "goroutines (relay sig h s) = goroutines s"
  "defaulted (relay sig h s) = defaulted s"
  "signals_var (relay sig h s) = signals_var s"
  "length (chans (relay sig h s)) = length (chans s)"
  by (simp_all add: relay_def)

lemma fold_relay_frame [simp]:
  "ctxs (fold (relay sig) hs s) = ctxs s"
  "handlers (fold (relay sig) hs s) = handlers s"
  "goroutines (fold (relay sig) hs s) = goroutines s"
  "defaulted (fold (relay sig) hs s) = defaulted s"
  "signals_var (fold (relay sig) hs s) = signals_var s"
  "length (chans (fold (relay sig) hs s)) = length (chans s)"
  by (induction hs arbitrary: s; simp)+

lemma relay_keeps: "chans s ! ch = Some v \<Longrightarrow> chans (relay sig h s) ! ch = Some v"
  by (cases "fst h = ch") (auto simp: relay_def send_def)

lemma fold_relay_keeps:
  "chans s ! ch = Some v \<Longrightarrow> chans (fold (relay sig) hs s) ! ch = Some v"
  by (induction hs arbitrary: s) (simp_all add: relay_keeps)

lemma fold_relay_unwanted:
  "\<forall>h \<in> set hs. fst h = ch \<longrightarrow> sig \<notin> snd h \<Longrightarrow>
   chans (fold (relay sig) hs s) ! ch = chans s ! ch"
proof (induction hs arbitrary: s)
  case Nil
  then show ?case by simp
next
  case (Cons h hs)
  have "chans (relay sig h s) ! ch = chans s ! ch"
    using Cons.prems by (cases "fst h = ch") (auto simp: relay_def send_def)
  with Cons show ?case by simp
qed

lemma fold_relay_wanted:
  "ch < length (chans s) \<Longrightarrow> (ch, h) \<in> set hs \<Longrightarrow> sig \<in> h \<Longrightarrow>
   chans (fold (relay sig) hs s) ! ch \<noteq> None"
proof (induction hs arbitrary: s)
  case Nil
  then show ?case by simp
next
  case (Cons a hs)
  show ?case
  proof (cases "a = (ch, h)")
    case True
    have "chans (relay sig a s) ! ch \<noteq> None"
      using Cons.prems True by (auto simp: relay_def send_def)
    then obtain v where "chans (relay sig a s) ! ch = Some v" by auto
    then show ?thesis by (simp add: fold_relay_keeps)
  next
    case False
    with Cons.prems have "(ch, h) \<in> set hs" by simp
    moreover have "ch < length (chans (relay sig a s))" using Cons.prems by simp
    ultimately show ?thesis using Cons.IH Cons.prems(3) by simp
  qed
qed

lemma process_frame [simp]:
  "ctxs (process sig s) = ctxs s"
  "handlers (process sig s) = handlers s"
  "goroutines (process sig s) = goroutines s"
  "defaulted (process sig s) = defaulted s"
  "signals_var (process sig s) = signals_var s"
  "length (chans (process sig s)) = length (chans s)"
  by (simp_all add: process_def)

lemma deliver_frame [simp]:
  "ctxs (deliver sig s) = ctxs s"
  "handlers (deliver sig s) = handlers s"
  "goroutines (deliver sig s) = goroutines s"
  "signals_var (deliver sig s) = signals_var s"
  "length (chans (deliver sig s)) = length (chans s)"
  by (simp_all add: deliver_def)

lemma deliver_uncatchable:
  "\<not> catchable sig \<Longrightarrow> deliver sig s = s\<lparr>defaulted := defaulted s @ [sig]\<rparr>"
  by (simp add: deliver_def intercepted_def)

lemma ctx_done_deliver [simp]: "ctx_done (deliver sig s) i = ctx_done s i"
  by (simp add: ctx_done_def)

lemma deliver_keeps:
  "chans s ! ch = Some v \<Longrightarrow> chans (deliver sig s) ! ch = Some v"
  by (simp add: deliver_def process_def fold_relay_keeps)

lemma deliver_unwanted:
  "distinct (map fst (handlers s)) \<Longrightarrow>
   (case map_of (handlers s) ch of None \<Rightarrow> True | Some h \<Rightarrow> sig \<notin> h) \<Longrightarrow>
   chans (deliver sig s) ! ch = chans s ! ch"
proof -
  assume d: "distinct (map fst (handlers s))"
    and u: "case map_of (handlers s) ch of None \<Rightarrow> True | Some h \<Rightarrow> sig \<notin> h"
  have "\<forall>h \<in> set (handlers s). fst h = ch \<longrightarrow> sig \<notin> snd h"
  proof (intro ballI impI)
    fix h assume "h \<in> set (handlers s)" "fst h = ch"
    then have "(ch, snd h) \<in> set (handlers s)" by auto
    with d have "map_of (handlers s) ch = Some (snd h)" by simp
    with u show "sig \<notin> snd h" by simp
  qed
  then show ?thesis
    by (simp add: deliver_def process_def fold_relay_unwanted)
qed

lemma deliver_wanted:
  "ch < length (chans s) \<Longrightarrow> map_of (handlers s) ch = Some h \<Longrightarrow> sig \<in> h \<Longrightarrow>
   catchable sig \<Longrightarrow> chans (deliver sig s) ! ch \<noteq> None"
proof -
  assume a: "ch < length (chans s)" "map_of (handlers s) ch = Some h" "sig \<in> h"
    and k: "catchable sig"
  then have m: "(ch, h) \<in> set (handlers s)" by (simp add: map_of_SomeD)
  then have "intercepted s sig"
    using a(3) k by (force simp: intercepted_def list_ex_iff)
  then show ?thesis
    using fold_relay_wanted [OF a(1) m a(3)] by (simp add: deliver_def process_def)
qed

lemma deliver_defaulted:
  "\<not> intercepted s sig \<Longrightarrow> deliver sig s = s\<lparr>defaulted := defaulted s @ [sig]\<rparr>"
  by (simp add: deliver_def)

section \<open>What a call of Handle leaves behind\<close>

lemma NotifyContext_Some:
  "NotifyContext (Some p) signals s =
     Inr ((length (ctxs s), Stop_func (length (ctxs s)) (length (chans s))),
          (let b = Notify (length (chans s)) signals
                     (snd (make_chan (propagateCancel p (length (ctxs s)) (new_ctx p False s))))
           in if ctx_done s p then b else go (Watcher (length (chans s)) (length (ctxs s))) b))"
proof -
  have "ctx_done (propagateCancel p (length (ctxs s)) (new_ctx p False s)) (length (ctxs s))
          = ctx_done s p"
    by (simp add: ctx_done_derive) (simp add: ctx_done_def)
  then show ?thesis
    by (simp add: NotifyContext_def WithCancel_def Let_def split_beta)
qed

lemma Handle_Some:
  "Handle signals (Some p) s =
     Inr (length (ctxs s),
          go (Waiter (length (ctxs s)) (Stop_func (length (ctxs s)) (length (chans s))))
            (let b = Notify (length (chans s)) signals
                       (snd (make_chan (propagateCancel p (length (ctxs s)) (new_ctx p False s))))
             in if ctx_done s p then b else go (Watcher (length (chans s)) (length (ctxs s))) b))"
  by (simp add: Handle_def NotifyContext_Some)

lemma Handle_None: "Handle signals None s = Inl (Panic ''cannot create context from nil parent'')"
  by (simp add: Handle_def NotifyContext_def WithCancel_def)

lemma Handle_obs:
  assumes "Handle signals (Some p) s = Inr (c, s1)"
  shows "c = length (ctxs s)"
    and "length (ctxs s1) = Suc (length (ctxs s))"
    and "\<And>i. i < length (ctxs s) \<Longrightarrow> ancestors (ctxs s1 ! i) = ancestors (ctxs s ! i)"
    and "\<And>i. i < length (ctxs s) \<Longrightarrow> user_cancel (ctxs s1 ! i) = user_cancel (ctxs s ! i)"
    and "ancestors (ctxs s1 ! c) = p # ancestors_of s p"
    and "\<not> user_cancel (ctxs s1 ! c)"
    and "\<And>i. ctx_done s1 i \<longleftrightarrow>
           ctx_done s i \<or>
           (ctx_done s p \<and> (i = c \<or> (i < c \<and> c \<in> set (attached (ctxs s ! i)))))"
    and "chans s1 = chans s @ [None]"
    and "\<And>ch'. map_of (handlers s1) ch' =
           (if ch' = length (chans s)
            then Some ((case map_of (handlers s) ch' of None \<Rightarrow> {} | Some h \<Rightarrow> h) \<union> sigmask signals)
            else map_of (handlers s) ch')"
    and "distinct (map fst (handlers s)) \<Longrightarrow> distinct (map fst (handlers s1))"
    and "goroutines s1 =
           goroutines s @
           (if ctx_done s p then []
            else (if foreign_ctx s p then [Propagator p c] else []) @
                 [Watcher (length (chans s)) c]) @
           [Waiter c (Stop_func c (length (chans s)))]"
    and "defaulted s1 = defaulted s"
    and "signals_var s1 = signals_var s"
    and "\<And>i. i < length (ctxs s) \<Longrightarrow> attached (ctxs s1 ! i) = attached (ctxs s ! i)"
    and "\<And>i. i < length (ctxs s) \<Longrightarrow> foreign (ctxs s1 ! i) = foreign (ctxs s ! i)"
    and "p < length (ctxs s) \<Longrightarrow>
           attached (ctxs s1 ! c) =
             (if ctx_done s p \<or> foreign_ctx s p then [] else p # attached_of s p)"
    and "\<not> foreign (ctxs s1 ! c)"
proof -
  let ?n = "new_ctx p False s"
  let ?d = "propagateCancel p (length (ctxs s)) ?n"
  let ?b = "Notify (length (chans s)) signals (snd (make_chan ?d))"
  let ?w = "Waiter (length (ctxs s)) (Stop_func (length (ctxs s)) (length (chans s)))"
  from assms have c: "c = length (ctxs s)"
    by (simp add: Handle_Some)
  from assms have s1: "s1 = go ?w (if ctx_done s p then ?b else go (Watcher (length (chans s)) (length (ctxs s))) ?b)"
    unfolding Handle_Some Let_def by (metis Inr_inject snd_conv)
  have cx: "ctxs s1 = ctxs ?d" by (simp add: s1)
  show "c = length (ctxs s)" by (rule c)
  show "length (ctxs s1) = Suc (length (ctxs s))" by (simp add: cx)
  show "\<And>i. i < length (ctxs s) \<Longrightarrow> ancestors (ctxs s1 ! i) = ancestors (ctxs s ! i)"
    by (simp add: cx)
  show "\<And>i. i < length (ctxs s) \<Longrightarrow> user_cancel (ctxs s1 ! i) = user_cancel (ctxs s ! i)"
    by (simp add: cx)
  show "ancestors (ctxs s1 ! c) = p # ancestors_of s p" by (simp add: cx c)
  show "\<not> user_cancel (ctxs s1 ! c)" by (simp add: cx c)
  have "\<And>i. ctx_done s1 i = ctx_done ?d i" by (simp add: ctx_done_def cx)
  then show "\<And>i. ctx_done s1 i \<longleftrightarrow>
           ctx_done s i \<or>
           (ctx_done s p \<and> (i = c \<or> (i < c \<and> c \<in> set (attached (ctxs s ! i)))))"
    by (simp add: ctx_done_derive c)
  show "chans s1 = chans s @ [None]" by (simp add: s1)
  show "\<And>ch'. map_of (handlers s1) ch' =
           (if ch' = length (chans s)
            then Some ((case map_of (handlers s) ch' of None \<Rightarrow> {} | Some h \<Rightarrow> h) \<union> sigmask signals)
            else map_of (handlers s) ch')"
    by (simp add: s1 Notify_map_of)
  show "distinct (map fst (handlers s)) \<Longrightarrow> distinct (map fst (handlers s1))"
    by (simp add: s1 Notify_distinct)
  show "goroutines s1 =
           goroutines s @
           (if ctx_done s p then []
            else (if foreign_ctx s p then [Propagator p c] else []) @
                 [Watcher (length (chans s)) c]) @
           [Waiter c (Stop_func c (length (chans s)))]"
    by (simp add: s1 c propagateCancel_goroutines ctx_done_new_ctx foreign_ctx_new_ctx)
  show "defaulted s1 = defaulted s" by (simp add: s1)
  show "signals_var s1 = signals_var s" by (simp add: s1 new_ctx_def)
  show "\<And>i. i < length (ctxs s) \<Longrightarrow> attached (ctxs s1 ! i) = attached (ctxs s ! i)"
    by (simp add: cx propagateCancel_attached)
  show "\<And>i. i < length (ctxs s) \<Longrightarrow> foreign (ctxs s1 ! i) = foreign (ctxs s ! i)"
    by (simp add: cx)
  show "p < length (ctxs s) \<Longrightarrow>
           attached (ctxs s1 ! c) =
             (if ctx_done s p \<or> foreign_ctx s p then [] else p # attached_of s p)"
    by (simp only: cx c attached_derive)
  show "\<not> foreign (ctxs s1 ! c)" by (simp add: cx c)
qed

lemma WithCancel_obs:
  assumes "WithCancel (Some p) held s = Inr (c, s1)"
  shows "c = length (ctxs s)"
    and "length (ctxs s1) = Suc (length (ctxs s))"
    and "\<And>i. i < length (ctxs s) \<Longrightarrow> ancestors (ctxs s1 ! i) = ancestors (ctxs s ! i)"
    and "\<And>i. i < length (ctxs s) \<Longrightarrow> user_cancel (ctxs s1 ! i) = user_cancel (ctxs s ! i)"
    and "\<And>i. ctx_done s1 i \<longleftrightarrow>
           ctx_done s i \<or>
           (ctx_done s p \<and> (i = c \<or> (i < c \<and> c \<in> set (attached (ctxs s ! i)))))"
    and "chans s1 = chans s"
    and "handlers s1 = handlers s"
    and "goroutines s1 =
           goroutines s @ (if \<not> ctx_done s p \<and> foreign_ctx s p then [Propagator p c] else [])"
    and "defaulted s1 = defaulted s"
    and "signals_var s1 = signals_var s"
    and "\<And>i. i < length (ctxs s) \<Longrightarrow> attached (ctxs s1 ! i) = attached (ctxs s ! i)"
    and "\<And>i. i < length (ctxs s) \<Longrightarrow> foreign (ctxs s1 ! i) = foreign (ctxs s ! i)"
proof -
  from assms have c: "c = length (ctxs s)"
    and s1: "s1 = propagateCancel p (length (ctxs s)) (new_ctx p held s)"
    by (auto simp: WithCancel_def Let_def)
  show "c = length (ctxs s)" by (rule c)
  show "length (ctxs s1) = Suc (length (ctxs s))" by (simp add: s1)
  show "\<And>i. i < length (ctxs s) \<Longrightarrow> ancestors (ctxs s1 ! i) = ancestors (ctxs s ! i)"
    by (simp add: s1)
  show "\<And>i. i < length (ctxs s) \<Longrightarrow> user_cancel (ctxs s1 ! i) = user_cancel (ctxs s ! i)"
    by (simp add: s1)
  show "\<And>i. ctx_done s1 i \<longleftrightarrow>
           ctx_done s i \<or>
           (ctx_done s p \<and> (i = c \<or> (i < c \<and> c \<in> set (attached (ctxs s ! i)))))"
    by (simp add: s1 c ctx_done_derive)
  show "chans s1 = chans s" "handlers s1 = handlers s" "defaulted s1 = defaulted s"
    by (simp_all add: s1)
  show "signals_var s1 = signals_var s" by (simp add: s1 new_ctx_def)
  show "goroutines s1 =
           goroutines s @ (if \<not> ctx_done s p \<and> foreign_ctx s p then [Propagator p c] else [])"
    by (simp add: s1 c propagateCancel_goroutines ctx_done_new_ctx foreign_ctx_new_ctx)
  show "\<And>i. i < length (ctxs s) \<Longrightarrow> attached (ctxs s1 ! i) = attached (ctxs s ! i)"
    by (simp add: s1 propagateCancel_attached)
  show "\<And>i. i < length (ctxs s) \<Longrightarrow> foreign (ctxs s1 ! i) = foreign (ctxs s ! i)"
    by (simp add: s1)
qed

lemma touches_Exited [simp]: "\<not> touches c ch Exited"
  by (simp add: touches_def)

lemma touches_Watcher [simp]: "touches c ch (Watcher ch' c') \<longleftrightarrow> ch' = ch \<or> c' = c"
  by (simp add: touches_def)

lemma touches_Waiter [simp]:
  "touches c ch (Waiter c' (Stop_func c'' ch')) \<longleftrightarrow> c'' = c \<or> ch' = ch"
  by (simp add: touches_def)

lemma touches_Propagator [simp]: "touches c ch (Propagator p' c') \<longleftrightarrow> c' = c"
  by (simp add: touches_def)

lemma extendsI:
  assumes "length (ctxs s) \<le> length (ctxs s')"
    and "\<And>i. i < length (ctxs s) \<Longrightarrow> ancestors (ctxs s' ! i) = ancestors (ctxs s ! i)"
    and "\<And>i. i < length (ctxs s) \<Longrightarrow> attached (ctxs s' ! i) = attached (ctxs s ! i)"
    and "\<And>i. i < length (ctxs s) \<Longrightarrow> user_cancel (ctxs s' ! i) = user_cancel (ctxs s ! i)"
    and "\<And>i. i < length (ctxs s) \<Longrightarrow> foreign (ctxs s' ! i) = foreign (ctxs s ! i)"
    and "\<And>i. i < length (ctxs s) \<Longrightarrow>
           ctx_done s' i \<longleftrightarrow> ctx_done s i \<or> (b \<and> length (ctxs s) \<in> set (attached (ctxs s ! i)))"
    and "\<exists>xs. chans s' = chans s @ xs"
    and "distinct (map fst (handlers s)) \<Longrightarrow> distinct (map fst (handlers s'))"
    and "\<And>ch. ch < length (chans s) \<Longrightarrow> map_of (handlers s') ch = map_of (handlers s) ch"
    and "\<exists>xs. goroutines s' = goroutines s @ xs \<and>
           (\<forall>x \<in> set xs. \<forall>c < length (ctxs s). \<forall>ch < length (chans s). \<not> touches c ch x)"
  shows "extends b s s'"
  unfolding extends_def using assms by (simp del: map_of_eq_Some_iff)

lemma extendsD:
  assumes "extends b s s'"
  shows "length (ctxs s) \<le> length (ctxs s')"
    and "\<And>i. i < length (ctxs s) \<Longrightarrow> ancestors (ctxs s' ! i) = ancestors (ctxs s ! i)"
    and "\<And>i. i < length (ctxs s) \<Longrightarrow> attached (ctxs s' ! i) = attached (ctxs s ! i)"
    and "\<And>i. i < length (ctxs s) \<Longrightarrow> user_cancel (ctxs s' ! i) = user_cancel (ctxs s ! i)"
    and "\<And>i. i < length (ctxs s) \<Longrightarrow> foreign (ctxs s' ! i) = foreign (ctxs s ! i)"
    and "\<And>i. i < length (ctxs s) \<Longrightarrow>
           ctx_done s' i \<longleftrightarrow> ctx_done s i \<or> (b \<and> length (ctxs s) \<in> set (attached (ctxs s ! i)))"
    and "\<exists>xs. chans s' = chans s @ xs"
    and "distinct (map fst (handlers s)) \<Longrightarrow> distinct (map fst (handlers s'))"
    and "\<And>ch. ch < length (chans s) \<Longrightarrow> map_of (handlers s') ch = map_of (handlers s) ch"
    and "\<exists>xs. goroutines s' = goroutines s @ xs \<and>
           (\<forall>x \<in> set xs. \<forall>c < length (ctxs s). \<forall>ch < length (chans s). \<not> touches c ch x)"
  using assms unfolding extends_def by (simp_all del: map_of_eq_Some_iff)

lemma extends_Handle:
  assumes "Handle signals (Some p) s = Inr (c, s1)"
  shows "extends (ctx_done s p) s s1"
proof (rule extendsI)
  note o = Handle_obs [OF assms]
  show "length (ctxs s) \<le> length (ctxs s1)" by (simp add: o(2))
  show "\<And>i. i < length (ctxs s) \<Longrightarrow> ancestors (ctxs s1 ! i) = ancestors (ctxs s ! i)"
    by (rule o(3))
  show "\<And>i. i < length (ctxs s) \<Longrightarrow> attached (ctxs s1 ! i) = attached (ctxs s ! i)"
    by (rule o(14))
  show "\<And>i. i < length (ctxs s) \<Longrightarrow> user_cancel (ctxs s1 ! i) = user_cancel (ctxs s ! i)"
    by (rule o(4))
  show "\<And>i. i < length (ctxs s) \<Longrightarrow> foreign (ctxs s1 ! i) = foreign (ctxs s ! i)"
    by (rule o(15))
  show "\<And>i. i < length (ctxs s) \<Longrightarrow>
      ctx_done s1 i \<longleftrightarrow> ctx_done s i \<or> (ctx_done s p \<and> length (ctxs s) \<in> set (attached (ctxs s ! i)))"
    by (auto simp: o(7) o(1))
  show "\<exists>xs. chans s1 = chans s @ xs" by (simp add: o(8))
  show "distinct (map fst (handlers s)) \<Longrightarrow> distinct (map fst (handlers s1))" by (rule o(10))
  show "\<And>ch. ch < length (chans s) \<Longrightarrow> map_of (handlers s1) ch = map_of (handlers s) ch"
    by (simp add: o(9))
  show "\<exists>xs. goroutines s1 = goroutines s @ xs \<and>
           (\<forall>x \<in> set xs. \<forall>c < length (ctxs s). \<forall>ch < length (chans s). \<not> touches c ch x)"
    by (auto simp: o(11) o(1))
qed

lemma extends_WithCancel:
  assumes "WithCancel (Some p) held s = Inr (c, s1)"
  shows "extends (ctx_done s p) s s1"
proof (rule extendsI)
  note o = WithCancel_obs [OF assms]
  show "length (ctxs s) \<le> length (ctxs s1)" by (simp add: o(2))
  show "\<And>i. i < length (ctxs s) \<Longrightarrow> ancestors (ctxs s1 ! i) = ancestors (ctxs s ! i)"
    by (rule o(3))
  show "\<And>i. i < length (ctxs s) \<Longrightarrow> attached (ctxs s1 ! i) = attached (ctxs s ! i)"
    by (rule o(11))
  show "\<And>i. i < length (ctxs s) \<Longrightarrow> user_cancel (ctxs s1 ! i) = user_cancel (ctxs s ! i)"
    by (rule o(4))
  show "\<And>i. i < length (ctxs s) \<Longrightarrow> foreign (ctxs s1 ! i) = foreign (ctxs s ! i)"
    by (rule o(12))
  show "\<And>i. i < length (ctxs s) \<Longrightarrow>
      ctx_done s1 i \<longleftrightarrow> ctx_done s i \<or> (ctx_done s p \<and> length (ctxs s) \<in> set (attached (ctxs s ! i)))"
    by (auto simp: o(5) o(1))
  show "\<exists>xs. chans s1 = chans s @ xs" by (simp add: o(6))
  show "distinct (map fst (handlers s)) \<Longrightarrow> distinct (map fst (handlers s1))"
    by (simp add: o(7))
  show "\<And>ch. ch < length (chans s) \<Longrightarrow> map_of (handlers s1) ch = map_of (handlers s) ch"
    by (simp add: o(7))
  show "\<exists>xs. goroutines s1 = goroutines s @ xs \<and>
           (\<forall>x \<in> set xs. \<forall>c < length (ctxs s). \<forall>ch < length (chans s). \<not> touches c ch x)"
    by (auto simp: o(8) o(1))
qed

lemma extends_new_foreign: "extends False s (new_foreign s)"
  by (rule extendsI) (simp_all add: ctx_done_new_foreign)

lemma extends_assign: "extends False s (s\<lparr>signals_var := sigs\<rparr>)"
  by (rule extendsI) (simp_all add: ctx_done_def)

text \<open>The events that create something, and the assignment, seen as one case.\<close>

lemma step_extends:
  assumes "e = Call_WithCancel p' \<or> e = Call_Handle p' \<or> e = Call_Foreign \<or> e = Assign_Signals sigs"
  shows "\<exists>b. extends b s (step e s)"
proof -
  have r: "extends False s s"
    by (rule extendsI) simp_all
  from assms consider "e = Call_WithCancel p'" | "e = Call_Handle p'" | "e = Call_Foreign"
    | "e = Assign_Signals sigs" by blast
  then show ?thesis
  proof cases
    case 1
    obtain c' s1 where w: "WithCancel (Some p') True s = Inr (c', s1)"
      by (simp add: WithCancel_def Let_def)
    show ?thesis
      using r extends_WithCancel [OF w] by (auto simp: 1 w result_state_def)
  next
    case 2
    obtain c' s1 where h: "Handle (signals_var s) (Some p') s = Inr (c', s1)"
      by (simp add: Handle_Some)
    show ?thesis
      using r extends_Handle [OF h] by (auto simp: 2 h result_state_def)
  next
    case 3
    then show ?thesis using extends_new_foreign by auto
  next
    case 4
    then show ?thesis using extends_assign by auto
  qed
qed

section \<open>The invariant of one call\<close>

lemma wf_fresh_chan: "wf_state s \<Longrightarrow> map_of (handlers s) (length (chans s)) = None"
proof -
  assume "wf_state s"
  then have "\<forall>h \<in> set (handlers s). fst h < length (chans s)"
    by (simp add: wf_state_def list_all_iff)
  then have "length (chans s) \<notin> fst ` set (handlers s)" by auto
  then show ?thesis by (simp add: map_of_eq_None_iff)
qed

lemma wf_untouched:
  "wf_state s \<Longrightarrow> i < length (goroutines s) \<Longrightarrow>
   \<not> touches (length (ctxs s)) (length (chans s)) (goroutines s ! i)"
proof -
  assume "wf_state s" and i: "i < length (goroutines s)"
  then have "wf_goroutine s (goroutines s ! i)"
    by (simp add: wf_state_def list_all_length)
  then show ?thesis
    by (auto simp: wf_goroutine_def touches_def split: goroutine.splits cancel_func.splits)
qed

lemma wf_ancestors:
  "wf_state s \<Longrightarrow> i < length (ctxs s) \<Longrightarrow> a \<in> set (ancestors (ctxs s ! i)) \<Longrightarrow> a < length (ctxs s)"
  by (auto simp: wf_state_def wf_ctx_def list_all_iff dest: nth_mem)

lemma wf_attached:
  "wf_state s \<Longrightarrow> i < length (ctxs s) \<Longrightarrow> a \<in> set (attached (ctxs s ! i)) \<Longrightarrow>
   a \<in> set (ancestors (ctxs s ! i))"
  by (auto simp: wf_state_def wf_ctx_def list_all_iff dest: nth_mem)

lemma wf_attached_bound:
  "wf_state s \<Longrightarrow> i < length (ctxs s) \<Longrightarrow> a \<in> set (attached (ctxs s ! i)) \<Longrightarrow> a < length (ctxs s)"
  using wf_attached wf_ancestors by blast

lemma touches_list_update:
  assumes "\<And>i. i < length gs \<Longrightarrow> touches c ch (gs ! i) \<Longrightarrow>
             i = w \<or> gs ! i = Watcher ch c \<or> gs ! i = Propagator p c"
    and "j < length gs" and "touches c ch (gs[i := Exited] ! j)"
  shows "j = w \<or> gs[i := Exited] ! j = Watcher ch c \<or> gs[i := Exited] ! j = Propagator p c"
proof (cases "j = i")
  case True
  with assms(2,3) show ?thesis by simp
next
  case False
  with assms show ?thesis by simp
qed

lemma handle_invI:
  assumes "p < c" "c < length (ctxs s)" "ch < length (chans s)" "w < length (goroutines s)"
    and "distinct (map fst (handlers s))"
    and "foreign (ctxs s ! p) = fp"
    and "\<not> user_cancel (ctxs s ! c)"
    and "\<not> fp \<Longrightarrow> ctx_done s p \<Longrightarrow> ctx_done s c"
    and "\<not> ctx_done s c \<Longrightarrow> g < length (goroutines s) \<and> goroutines s ! g = Watcher ch c"
    and "\<And>i. i < length (goroutines s) \<Longrightarrow> touches c ch (goroutines s ! i) \<Longrightarrow>
           i = w \<or> goroutines s ! i = Watcher ch c \<or> goroutines s ! i = Propagator p c"
    and "goroutines s ! w = Exited \<Longrightarrow> map_of (handlers s) ch = None \<and> ctx_done s c"
    and "goroutines s ! w \<noteq> Exited \<Longrightarrow>
           goroutines s ! w = Waiter c (Stop_func c ch) \<and> map_of (handlers s) ch = Some m"
    and "\<not> ctx_done s c \<Longrightarrow> fp \<Longrightarrow>
           attached (ctxs s ! c) = [] \<and>
           gp < length (goroutines s) \<and> goroutines s ! gp = Propagator p c"
    and "\<not> ctx_done s c \<Longrightarrow> \<not> fp \<Longrightarrow> attached (ctxs s ! c) = p # attached (ctxs s ! p)"
  shows "handle_inv p fp c ch gp g w m s"
  unfolding handle_inv_def using assms by (simp del: map_of_eq_Some_iff)

lemma handle_invD:
  assumes "handle_inv p fp c ch gp g w m s"
  shows "p < c" "c < length (ctxs s)" "ch < length (chans s)" "w < length (goroutines s)"
    and "distinct (map fst (handlers s))"
    and "foreign (ctxs s ! p) = fp"
    and "\<not> user_cancel (ctxs s ! c)"
    and "\<not> fp \<Longrightarrow> ctx_done s p \<Longrightarrow> ctx_done s c"
    and "\<not> ctx_done s c \<Longrightarrow> g < length (goroutines s) \<and> goroutines s ! g = Watcher ch c"
    and "\<And>i. i < length (goroutines s) \<Longrightarrow> touches c ch (goroutines s ! i) \<Longrightarrow>
           i = w \<or> goroutines s ! i = Watcher ch c \<or> goroutines s ! i = Propagator p c"
    and "goroutines s ! w = Exited \<Longrightarrow> map_of (handlers s) ch = None \<and> ctx_done s c"
    and "goroutines s ! w \<noteq> Exited \<Longrightarrow>
           goroutines s ! w = Waiter c (Stop_func c ch) \<and> map_of (handlers s) ch = Some m"
    and "\<not> ctx_done s c \<Longrightarrow> fp \<Longrightarrow>
           attached (ctxs s ! c) = [] \<and>
           gp < length (goroutines s) \<and> goroutines s ! gp = Propagator p c"
    and "\<not> ctx_done s c \<Longrightarrow> \<not> fp \<Longrightarrow> attached (ctxs s ! c) = p # attached (ctxs s ! p)"
  using assms unfolding handle_inv_def by (simp_all del: map_of_eq_Some_iff)

text \<open>
  The positions in the pool of the goroutines that a call in state \<open>s\<close> on parent \<open>p\<close>
  starts: first the goroutine watching a parent of another implementation, then the
  watcher of \<open>NotifyContext\<close> (neither when the parent is done already), then the waiter
  of \<open>Handle\<close>.
\<close>

lemma handle_inv_established:
  assumes w: "wf_state s" and p: "p < length (ctxs s)"
    and h: "Handle signals (Some p) s = Inr (c, s1)"
    and n: "n = length (goroutines s)"
  shows "handle_inv p (foreign_ctx s p) c (length (chans s)) n
           (if foreign_ctx s p then Suc n else n)
           (if ctx_done s p then n else if foreign_ctx s p then Suc (Suc n) else Suc n)
           (sigmask signals) s1"
proof (rule handle_invI)
  let ?ch = "length (chans s)"
  let ?w = "if ctx_done s p then n else if foreign_ctx s p then Suc (Suc n) else Suc n"
  note o = Handle_obs [OF h]
  have dc: "ctx_done s1 c \<longleftrightarrow> ctx_done s p"
    by (simp add: o(7)) (simp add: o(1) ctx_done_def)
  show "p < c" using p by (simp add: o(1))
  show "c < length (ctxs s1)" by (simp add: o(1) o(2))
  show "?ch < length (chans s1)" by (simp add: o(8))
  show "?w < length (goroutines s1)" by (simp add: o(11) n)
  show "distinct (map fst (handlers s1))" using w o(10) by (simp add: wf_state_def)
  show "foreign (ctxs s1 ! p) = foreign_ctx s p" using p by (simp add: o(15) foreign_ctx_def)
  show "\<not> user_cancel (ctxs s1 ! c)" by (rule o(6))
  show "ctx_done s1 p \<Longrightarrow> ctx_done s1 c" by (auto simp: o(7))
  show "\<not> ctx_done s1 c \<Longrightarrow>
      (if foreign_ctx s p then Suc n else n) < length (goroutines s1) \<and>
      goroutines s1 ! (if foreign_ctx s p then Suc n else n) = Watcher ?ch c"
    by (auto simp: dc o(11) n nth_append)
  show "\<And>i. i < length (goroutines s1) \<Longrightarrow> touches c ?ch (goroutines s1 ! i) \<Longrightarrow>
         i = ?w \<or> goroutines s1 ! i = Watcher ?ch c \<or> goroutines s1 ! i = Propagator p c"
  proof -
    fix i assume i: "i < length (goroutines s1)" and tc: "touches c ?ch (goroutines s1 ! i)"
    show "i = ?w \<or> goroutines s1 ! i = Watcher ?ch c \<or> goroutines s1 ! i = Propagator p c"
    proof (cases "i < length (goroutines s)")
      case True
      then have "goroutines s1 ! i = goroutines s ! i" by (simp add: o(11) nth_append)
      with wf_untouched [OF w True] tc o(1) show ?thesis by simp
    next
      case False
      with i show ?thesis
        by (cases "ctx_done s p"; cases "foreign_ctx s p")
           (auto simp: o(11) n nth_append less_Suc_eq nth_Cons')
    qed
  qed
  have wt: "goroutines s1 ! ?w = Waiter c (Stop_func c ?ch)"
    by (simp add: o(11) n nth_append)
  show "goroutines s1 ! ?w = Exited \<Longrightarrow> map_of (handlers s1) ?ch = None \<and> ctx_done s1 c"
    using wt by simp
  show "goroutines s1 ! ?w \<noteq> Exited \<Longrightarrow>
      goroutines s1 ! ?w = Waiter c (Stop_func c ?ch) \<and>
      map_of (handlers s1) ?ch = Some (sigmask signals)"
    using wt wf_fresh_chan [OF w] by (simp add: o(9))
  show "\<not> ctx_done s1 c \<Longrightarrow> foreign_ctx s p \<Longrightarrow>
      attached (ctxs s1 ! c) = [] \<and> n < length (goroutines s1) \<and>
      goroutines s1 ! n = Propagator p c"
    using p by (simp add: dc o(16) o(11) n nth_append)
  show "\<not> ctx_done s1 c \<Longrightarrow> \<not> foreign_ctx s p \<Longrightarrow>
      attached (ctxs s1 ! c) = p # attached (ctxs s1 ! p)"
    using p by (simp add: dc o(16) o(14) attached_of_def)
qed

lemma handle_inv_cancel:
  assumes h: "handle_inv p fp c ch gp g w m s"
  shows "handle_inv p fp c ch gp g w m (cancel x s)"
proof (rule handle_invI)
  note d = handle_invD [OF h]
  have pl: "p < length (ctxs s)" using d(1,2) by simp
  have mono: "ctx_done s c \<Longrightarrow> ctx_done (cancel x s) c" by (rule ctx_done_cancel_mono)
  show "p < c" "c < length (ctxs (cancel x s))" "ch < length (chans (cancel x s))"
    "w < length (goroutines (cancel x s))" "distinct (map fst (handlers (cancel x s)))"
    "foreign (ctxs (cancel x s) ! p) = fp" "\<not> user_cancel (ctxs (cancel x s) ! c)"
    using d pl by simp_all
  show "\<not> fp \<Longrightarrow> ctx_done (cancel x s) p \<Longrightarrow> ctx_done (cancel x s) c"
    using d(2,8,14) pl by (auto simp: ctx_done_cancel)
  show "\<not> ctx_done (cancel x s) c \<Longrightarrow>
      g < length (goroutines (cancel x s)) \<and> goroutines (cancel x s) ! g = Watcher ch c"
    using d(9) mono by auto
  show "\<And>i. i < length (goroutines (cancel x s)) \<Longrightarrow>
      touches c ch (goroutines (cancel x s) ! i) \<Longrightarrow>
      i = w \<or> goroutines (cancel x s) ! i = Watcher ch c \<or>
      goroutines (cancel x s) ! i = Propagator p c"
    using d(10) by simp
  show "goroutines (cancel x s) ! w = Exited \<Longrightarrow>
      map_of (handlers (cancel x s)) ch = None \<and> ctx_done (cancel x s) c"
    using d(11) mono by simp
  show "goroutines (cancel x s) ! w \<noteq> Exited \<Longrightarrow>
      goroutines (cancel x s) ! w = Waiter c (Stop_func c ch) \<and>
      map_of (handlers (cancel x s)) ch = Some m"
    using d(12) by (simp del: map_of_eq_Some_iff)
  show "\<not> ctx_done (cancel x s) c \<Longrightarrow> fp \<Longrightarrow>
      attached (ctxs (cancel x s) ! c) = [] \<and> gp < length (goroutines (cancel x s)) \<and>
      goroutines (cancel x s) ! gp = Propagator p c"
    using d(2,13) mono by auto
  show "\<not> ctx_done (cancel x s) c \<Longrightarrow> \<not> fp \<Longrightarrow>
      attached (ctxs (cancel x s) ! c) = p # attached (ctxs (cancel x s) ! p)"
    using d(2,14) pl mono by auto
qed

lemma handle_inv_chans:
  assumes "handle_inv p fp c ch gp g w m s"
    and "ctxs s' = ctxs s" "handlers s' = handlers s" "goroutines s' = goroutines s"
    and "length (chans s') = length (chans s)"
  shows "handle_inv p fp c ch gp g w m s'"
proof -
  have "ctx_done s' = ctx_done s" using assms(2) by (simp add: ctx_done_def fun_eq_iff)
  with assms show ?thesis by (simp add: handle_inv_def)
qed

lemma handle_inv_deliver:
  "handle_inv p fp c ch gp g w m s \<Longrightarrow> handle_inv p fp c ch gp g w m (deliver sig s)"
  by (erule handle_inv_chans) simp_all

lemma handle_inv_recv:
  "handle_inv p fp c ch gp g w m s \<Longrightarrow> handle_inv p fp c ch gp g w m (recv ch' s)"
  by (erule handle_inv_chans) simp_all

text \<open>Goroutines and handlers change, contexts do not.\<close>

lemma handle_inv_pool:
  assumes h: "handle_inv p fp c ch gp g w m s"
    and cx: "ctxs s' = ctxs s" and cn: "chans s' = chans s"
    and l: "length (goroutines s') = length (goroutines s)"
    and dh: "distinct (map fst (handlers s'))"
    and gw: "\<not> ctx_done s c \<Longrightarrow> goroutines s' ! g = goroutines s ! g"
    and gpp: "\<not> ctx_done s c \<Longrightarrow> fp \<Longrightarrow> goroutines s' ! gp = goroutines s ! gp"
    and t: "\<And>i. i < length (goroutines s) \<Longrightarrow> touches c ch (goroutines s' ! i) \<Longrightarrow>
              i = w \<or> goroutines s' ! i = Watcher ch c \<or> goroutines s' ! i = Propagator p c"
    and e: "goroutines s' ! w = Exited \<Longrightarrow> map_of (handlers s') ch = None \<and> ctx_done s c"
    and ne: "goroutines s' ! w \<noteq> Exited \<Longrightarrow>
           goroutines s' ! w = Waiter c (Stop_func c ch) \<and> map_of (handlers s') ch = Some m"
  shows "handle_inv p fp c ch gp g w m s'"
proof (rule handle_invI)
  note d = handle_invD [OF h]
  have dn: "ctx_done s' = ctx_done s" using cx by (simp add: ctx_done_def fun_eq_iff)
  show "p < c" "c < length (ctxs s')" "ch < length (chans s')" "w < length (goroutines s')"
    "foreign (ctxs s' ! p) = fp" "\<not> user_cancel (ctxs s' ! c)"
    using d by (simp_all add: cx cn l)
  show "distinct (map fst (handlers s'))" by (rule dh)
  show "\<not> fp \<Longrightarrow> ctx_done s' p \<Longrightarrow> ctx_done s' c" using d(8) by (simp add: dn)
  show "\<not> ctx_done s' c \<Longrightarrow> g < length (goroutines s') \<and> goroutines s' ! g = Watcher ch c"
    using d(9) gw by (simp add: dn l)
  show "\<And>i. i < length (goroutines s') \<Longrightarrow> touches c ch (goroutines s' ! i) \<Longrightarrow>
         i = w \<or> goroutines s' ! i = Watcher ch c \<or> goroutines s' ! i = Propagator p c"
    using t by (simp add: l)
  show "goroutines s' ! w = Exited \<Longrightarrow> map_of (handlers s') ch = None \<and> ctx_done s' c"
    using e by (simp add: dn)
  show "goroutines s' ! w \<noteq> Exited \<Longrightarrow>
      goroutines s' ! w = Waiter c (Stop_func c ch) \<and> map_of (handlers s') ch = Some m"
    by (rule ne)
  show "\<not> ctx_done s' c \<Longrightarrow> fp \<Longrightarrow>
      attached (ctxs s' ! c) = [] \<and> gp < length (goroutines s') \<and>
      goroutines s' ! gp = Propagator p c"
    using d(13) gpp by (simp add: dn cx l)
  show "\<not> ctx_done s' c \<Longrightarrow> \<not> fp \<Longrightarrow> attached (ctxs s' ! c) = p # attached (ctxs s' ! p)"
    using d(14) by (simp add: dn cx)
qed

lemma handle_inv_waiter:
  assumes "handle_inv p fp c ch gp g w m s"
  shows "goroutines s ! w = Exited \<or> goroutines s ! w = Waiter c (Stop_func c ch)"
  using handle_invD(11,12) [OF assms] by blast

lemma handle_inv_touch:
  assumes "handle_inv p fp c ch gp g w m s" and "i < length (goroutines s)" and "i \<noteq> w"
  shows "goroutines s ! i = Watcher ch c \<or> goroutines s ! i = Propagator p c \<or>
         \<not> touches c ch (goroutines s ! i)"
  using handle_invD(10) [OF assms(1,2)] assms(3) by blast

lemma handle_inv_finish:
  assumes h: "handle_inv p fp c ch gp g w m s" and iw: "i \<noteq> w"
    and ig: "i = g \<longrightarrow> ctx_done s c" and ip: "fp \<and> i = gp \<longrightarrow> ctx_done s c"
  shows "handle_inv p fp c ch gp g w m (finish i s)"
proof (rule handle_inv_pool [OF h])
  note d = handle_invD [OF h]
  show "ctxs (finish i s) = ctxs s" "chans (finish i s) = chans s"
    "length (goroutines (finish i s)) = length (goroutines s)"
    "distinct (map fst (handlers (finish i s)))"
    using d(5) by simp_all
  show "\<not> ctx_done s c \<Longrightarrow> goroutines (finish i s) ! g = goroutines s ! g"
    using ig by auto
  show "\<not> ctx_done s c \<Longrightarrow> fp \<Longrightarrow> goroutines (finish i s) ! gp = goroutines s ! gp"
    using ip by auto
  show "\<And>j. j < length (goroutines s) \<Longrightarrow> touches c ch (goroutines (finish i s) ! j) \<Longrightarrow>
         j = w \<or> goroutines (finish i s) ! j = Watcher ch c \<or>
         goroutines (finish i s) ! j = Propagator p c"
    using touches_list_update [of "goroutines s" c ch w p] d(10) by simp
  show "goroutines (finish i s) ! w = Exited \<Longrightarrow>
      map_of (handlers (finish i s)) ch = None \<and> ctx_done s c"
    using d(11) iw by simp
  show "goroutines (finish i s) ! w \<noteq> Exited \<Longrightarrow>
      goroutines (finish i s) ! w = Waiter c (Stop_func c ch) \<and>
      map_of (handlers (finish i s)) ch = Some m"
    using d(12) iw by (simp del: map_of_eq_Some_iff)
qed

lemma handle_inv_Stop_other:
  assumes h: "handle_inv p fp c ch gp g w m s" and ne: "ch' \<noteq> ch"
  shows "handle_inv p fp c ch gp g w m (Stop ch' s)"
proof (rule handle_inv_pool [OF h])
  note d = handle_invD [OF h]
  show "ctxs (Stop ch' s) = ctxs s" "chans (Stop ch' s) = chans s"
    "length (goroutines (Stop ch' s)) = length (goroutines s)"
    "distinct (map fst (handlers (Stop ch' s)))"
    using d(5) by (simp_all add: Stop_distinct)
  show "\<And>j. j < length (goroutines s) \<Longrightarrow> touches c ch (goroutines (Stop ch' s) ! j) \<Longrightarrow>
         j = w \<or> goroutines (Stop ch' s) ! j = Watcher ch c \<or>
         goroutines (Stop ch' s) ! j = Propagator p c"
    using d(10) by simp
  show "goroutines (Stop ch' s) ! w = Exited \<Longrightarrow>
      map_of (handlers (Stop ch' s)) ch = None \<and> ctx_done s c"
    using d(11) ne by (simp add: Stop_map_of)
  show "goroutines (Stop ch' s) ! w \<noteq> Exited \<Longrightarrow>
      goroutines (Stop ch' s) ! w = Waiter c (Stop_func c ch) \<and>
      map_of (handlers (Stop ch' s)) ch = Some m"
    using d(12) ne by (simp add: Stop_map_of del: map_of_eq_Some_iff)
qed simp_all

lemma handle_inv_waiter_returns:
  assumes h: "handle_inv p fp c ch gp g w m s" and dn: "ctx_done s c"
  shows "handle_inv p fp c ch gp g w m (finish w (Stop ch s))"
proof (rule handle_inv_pool [OF h])
  note d = handle_invD [OF h]
  let ?s = "finish w (Stop ch s)"
  show "ctxs ?s = ctxs s" "chans ?s = chans s"
    "length (goroutines ?s) = length (goroutines s)" "distinct (map fst (handlers ?s))"
    using d(5) by (simp_all add: Stop_distinct)
  show "\<not> ctx_done s c \<Longrightarrow> goroutines ?s ! g = goroutines s ! g" using dn by simp
  show "\<not> ctx_done s c \<Longrightarrow> fp \<Longrightarrow> goroutines ?s ! gp = goroutines s ! gp" using dn by simp
  show "\<And>j. j < length (goroutines s) \<Longrightarrow> touches c ch (goroutines ?s ! j) \<Longrightarrow>
         j = w \<or> goroutines ?s ! j = Watcher ch c \<or> goroutines ?s ! j = Propagator p c"
    using touches_list_update [of "goroutines s" c ch w p] d(10) by simp
  show "goroutines ?s ! w = Exited \<Longrightarrow> map_of (handlers ?s) ch = None \<and> ctx_done s c"
    using dn by (simp add: Stop_map_of)
  show "goroutines ?s ! w \<noteq> Exited \<Longrightarrow>
      goroutines ?s ! w = Waiter c (Stop_func c ch) \<and> map_of (handlers ?s) ch = Some m"
    using d(4) by simp
qed

lemma cancel_done_noop: "ctx_done s c \<Longrightarrow> cancel c s = s"
  by (simp add: cancel_def)

lemma handle_inv_run_goroutine:
  assumes h: "handle_inv p fp c ch gp g w m s"
  shows "handle_inv p fp c ch gp g w m (run_goroutine i b s)"
proof (cases "i < length (goroutines s)")
  case False
  then show ?thesis using h by (simp add: run_goroutine_def)
next
  case i: True
  note d = handle_invD [OF h]
  show ?thesis
  proof (cases "goroutines s ! i")
    case Exited
    then show ?thesis using h i by (simp add: run_goroutine_def)
  next
    case (Watcher ch' c')
    then have iw: "i \<noteq> w" using handle_inv_waiter [OF h] by auto
    have gi: "i = g \<longrightarrow> \<not> ctx_done s c \<longrightarrow> c' = c"
      using d(9) Watcher by (cases "ctx_done s c") auto
    have pi: "fp \<and> i = gp \<longrightarrow> ctx_done s c"
      using d(13) Watcher by (cases "ctx_done s c") auto
    have f1: "handle_inv p fp c ch gp g w m (finish i (cancel c' (recv ch' s)))"
    proof (rule handle_inv_finish [OF handle_inv_cancel [OF handle_inv_recv [OF h]] iw])
      show "i = g \<longrightarrow> ctx_done (cancel c' (recv ch' s)) c"
        using gi d(2) by (auto simp: ctx_done_cancel)
      show "fp \<and> i = gp \<longrightarrow> ctx_done (cancel c' (recv ch' s)) c"
        using pi by (auto simp: ctx_done_cancel)
    qed
    have f2: "ctx_done s c' \<Longrightarrow> handle_inv p fp c ch gp g w m (finish i s)"
    proof (rule handle_inv_finish [OF h iw _ pi])
      assume "ctx_done s c'"
      then show "i = g \<longrightarrow> ctx_done s c" using gi by auto
    qed
    show ?thesis
      using i Watcher f1 f2 h by (simp add: run_goroutine_def)
  next
    case (Propagator p' c')
    then have iw: "i \<noteq> w" using handle_inv_waiter [OF h] by auto
    have gi: "i = g \<longrightarrow> ctx_done s c"
      using d(9) Propagator by (cases "ctx_done s c") auto
    have pi: "fp \<and> i = gp \<longrightarrow> \<not> ctx_done s c \<longrightarrow> c' = c"
      using d(13) Propagator by (cases "ctx_done s c") auto
    have f1: "handle_inv p fp c ch gp g w m (finish i (cancel c' s))"
    proof (rule handle_inv_finish [OF handle_inv_cancel [OF h] iw])
      show "i = g \<longrightarrow> ctx_done (cancel c' s) c"
        using gi by (auto simp: ctx_done_cancel)
      show "fp \<and> i = gp \<longrightarrow> ctx_done (cancel c' s) c"
        using pi d(2) by (auto simp: ctx_done_cancel)
    qed
    have f2: "ctx_done s c' \<Longrightarrow> handle_inv p fp c ch gp g w m (finish i s)"
    proof (rule handle_inv_finish [OF h iw gi])
      assume "ctx_done s c'"
      then show "fp \<and> i = gp \<longrightarrow> ctx_done s c" using pi by auto
    qed
    show ?thesis
      using i Propagator f1 f2 h by (simp add: run_goroutine_def)
  next
    case (Waiter c' f)
    obtain c'' ch' where f: "f = Stop_func c'' ch'" by (cases f)
    have ig: "i = g \<longrightarrow> ctx_done s c"
      using d(9) Waiter by (cases "ctx_done s c") auto
    have pi: "fp \<and> i = gp \<longrightarrow> ctx_done s c"
      using d(13) Waiter by (cases "ctx_done s c") auto
    show ?thesis
    proof (cases "i = w")
      case True
      then have e: "c' = c" "c'' = c" "ch' = ch"
        using handle_inv_waiter [OF h] Waiter f by auto
      have "ctx_done s c \<Longrightarrow> handle_inv p fp c ch gp g w m (finish w (Stop ch (cancel c s)))"
        using handle_inv_waiter_returns [OF h] by (simp add: cancel_done_noop)
      then show ?thesis
        using i Waiter f e True h by (simp add: run_goroutine_def call_cancel_def)
    next
      case False
      then have "\<not> touches c ch (goroutines s ! i)"
        using handle_inv_touch [OF h i] Waiter by auto
      then have ne: "ch' \<noteq> ch" using Waiter f by simp
      have "handle_inv p fp c ch gp g w m (finish i (Stop ch' (cancel c'' s)))"
      proof (rule handle_inv_finish [OF handle_inv_Stop_other [OF handle_inv_cancel [OF h] ne] False])
        show "i = g \<longrightarrow> ctx_done (Stop ch' (cancel c'' s)) c"
          using ig by (simp add: ctx_done_cancel)
        show "fp \<and> i = gp \<longrightarrow> ctx_done (Stop ch' (cancel c'' s)) c"
          using pi by (simp add: ctx_done_cancel)
      qed
      then show ?thesis
        using i Waiter f h by (simp add: run_goroutine_def call_cancel_def)
    qed
  qed
qed

lemma handle_inv_extends:
  assumes h: "handle_inv p fp c ch gp g w m s" and x: "extends b s s'"
  shows "handle_inv p fp c ch gp g w m s'"
proof (rule handle_invI)
  note d = handle_invD [OF h] and e = extendsD [OF x]
  have pl: "p < length (ctxs s)" using d(1,2) by simp
  from e(10) obtain xs where xs: "goroutines s' = goroutines s @ xs"
    "\<forall>x \<in> set xs. \<forall>c < length (ctxs s). \<forall>ch < length (chans s). \<not> touches c ch x"
    by blast
  from e(7) obtain ys where ys: "chans s' = chans s @ ys" by blast
  have mono: "ctx_done s c \<Longrightarrow> ctx_done s' c" using e(6) [OF d(2)] by simp
  have old: "\<And>i. i < length (goroutines s) \<Longrightarrow> goroutines s' ! i = goroutines s ! i"
    by (simp add: xs(1) nth_append)
  show "p < c" by (rule d(1))
  show "c < length (ctxs s')" using d(2) e(1) by simp
  show "ch < length (chans s')" using d(3) by (simp add: ys)
  show "w < length (goroutines s')" using d(4) by (simp add: xs(1))
  show "distinct (map fst (handlers s'))" using d(5) by (rule e(8))
  show "foreign (ctxs s' ! p) = fp" using d(6) e(5) [OF pl] by simp
  show "\<not> user_cancel (ctxs s' ! c)" using d(7) e(4) [OF d(2)] by simp
  show "\<not> fp \<Longrightarrow> ctx_done s' p \<Longrightarrow> ctx_done s' c"
    using d(8) d(14) e(6) [OF pl] e(6) [OF d(2)] by auto
  show "\<not> ctx_done s' c \<Longrightarrow> g < length (goroutines s') \<and> goroutines s' ! g = Watcher ch c"
    using d(9) mono by (auto simp: xs(1) nth_append)
  show "\<And>i. i < length (goroutines s') \<Longrightarrow> touches c ch (goroutines s' ! i) \<Longrightarrow>
         i = w \<or> goroutines s' ! i = Watcher ch c \<or> goroutines s' ! i = Propagator p c"
  proof -
    fix i assume i: "i < length (goroutines s')" and tc: "touches c ch (goroutines s' ! i)"
    show "i = w \<or> goroutines s' ! i = Watcher ch c \<or> goroutines s' ! i = Propagator p c"
    proof (cases "i < length (goroutines s)")
      case True
      then show ?thesis using d(10) [of i] tc by (simp add: old)
    next
      case False
      with i have "goroutines s' ! i \<in> set xs" by (simp add: xs(1) nth_append)
      with xs(2) d(2,3) tc show ?thesis by blast
    qed
  qed
  show "goroutines s' ! w = Exited \<Longrightarrow> map_of (handlers s') ch = None \<and> ctx_done s' c"
    using d(11) mono by (simp add: old [OF d(4)] e(9) [OF d(3)])
  show "goroutines s' ! w \<noteq> Exited \<Longrightarrow>
      goroutines s' ! w = Waiter c (Stop_func c ch) \<and> map_of (handlers s') ch = Some m"
    using d(12) by (simp add: old [OF d(4)] e(9) [OF d(3)] del: map_of_eq_Some_iff)
  show "\<not> ctx_done s' c \<Longrightarrow> fp \<Longrightarrow>
      attached (ctxs s' ! c) = [] \<and> gp < length (goroutines s') \<and>
      goroutines s' ! gp = Propagator p c"
    using d(13) mono e(3) [OF d(2)] by (auto simp: xs(1) nth_append)
  show "\<not> ctx_done s' c \<Longrightarrow> \<not> fp \<Longrightarrow> attached (ctxs s' ! c) = p # attached (ctxs s' ! p)"
    using d(14) mono e(3) [OF d(2)] e(3) [OF pl] by auto
qed

lemma handle_inv_step:
  assumes h: "handle_inv p fp c ch gp g w m s"
  shows "handle_inv p fp c ch gp g w m (step e s)"
proof (cases e)
  case (Deliver sig)
  then show ?thesis using handle_inv_deliver [OF h] by simp
next
  case (Cancel x)
  then show ?thesis using handle_inv_cancel [OF h] h by simp
next
  case (Run i b)
  then show ?thesis using handle_inv_run_goroutine [OF h] by simp
next
  case (Call_WithCancel p')
  then show ?thesis using step_extends [of e p'] handle_inv_extends [OF h] by blast
next
  case (Call_Handle p')
  then show ?thesis using step_extends [of e p'] handle_inv_extends [OF h] by blast
next
  case Call_Foreign
  then show ?thesis using step_extends [of e] handle_inv_extends [OF h] by blast
next
  case (Assign_Signals sigs)
  then show ?thesis using step_extends [of e _ sigs] handle_inv_extends [OF h] by blast
qed

lemma run_Nil [simp]: "run [] s = s"
  by (simp add: run_def)

lemma run_Cons [simp]: "run (e # evs) s = run evs (step e s)"
  by (simp add: run_def)

lemma run_append [simp]: "run (evs @ evs') s = run evs' (run evs s)"
  by (simp add: run_def)

lemma handle_inv_run:
  "handle_inv p fp c ch gp g w m s \<Longrightarrow> handle_inv p fp c ch gp g w m (run evs s)"
  by (induction evs arbitrary: s) (simp_all add: handle_inv_step)

section \<open>Done is for ever; the fields of a context never change\<close>

lemma ctx_done_run_goroutine_mono:
  "ctx_done s i \<Longrightarrow> ctx_done (run_goroutine j b s) i"
  by (auto simp: run_goroutine_def call_cancel_def ctx_done_cancel_mono
           split: goroutine.splits cancel_func.splits)

lemma ctx_done_extends_mono:
  assumes "extends b s s'" and "ctx_done s i"
  shows "ctx_done s' i"
proof -
  from assms(2) have "i < length (ctxs s)" by (simp add: ctx_done_def)
  from extendsD(6) [OF assms(1) this] assms(2) show ?thesis by simp
qed

lemma ctx_done_step_mono:
  assumes "ctx_done s i"
  shows "ctx_done (step e s) i"
proof (cases e)
  case (Call_WithCancel p')
  then show ?thesis using step_extends [of e p'] ctx_done_extends_mono [OF _ assms] by blast
next
  case (Call_Handle p')
  then show ?thesis using step_extends [of e p'] ctx_done_extends_mono [OF _ assms] by blast
next
  case Call_Foreign
  then show ?thesis using step_extends [of e] ctx_done_extends_mono [OF _ assms] by blast
next
  case (Assign_Signals sigs)
  then show ?thesis using step_extends [of e _ sigs] ctx_done_extends_mono [OF _ assms] by blast
qed (use assms in \<open>simp_all add: ctx_done_cancel_mono ctx_done_run_goroutine_mono\<close>)

lemma ctx_done_run_mono: "ctx_done s i \<Longrightarrow> ctx_done (run evs s) i"
  by (induction evs arbitrary: s) (simp_all add: ctx_done_step_mono)

lemma fields_run_goroutine:
  "i < length (ctxs s) \<Longrightarrow>
   length (ctxs (run_goroutine j b s)) = length (ctxs s) \<and>
   ancestors (ctxs (run_goroutine j b s) ! i) = ancestors (ctxs s ! i) \<and>
   attached (ctxs (run_goroutine j b s) ! i) = attached (ctxs s ! i)"
  by (auto simp: run_goroutine_def call_cancel_def split: goroutine.splits cancel_func.splits)

lemma fields_step:
  assumes "i < length (ctxs s)"
  shows "i < length (ctxs (step e s)) \<and>
         ancestors (ctxs (step e s) ! i) = ancestors (ctxs s ! i) \<and>
         attached (ctxs (step e s) ! i) = attached (ctxs s ! i)"
proof -
  have x: "extends b s (step e s) \<Longrightarrow> ?thesis" for b
    using extendsD(1,2,3) [of b s "step e s"] assms by auto
  show ?thesis
  proof (cases e)
    case (Run j b)
    then show ?thesis using fields_run_goroutine [OF assms, of j b] assms by simp
  next
    case (Call_WithCancel p')
    then show ?thesis using step_extends [of e p'] x by blast
  next
    case (Call_Handle p')
    then show ?thesis using step_extends [of e p'] x by blast
  next
    case Call_Foreign
    then show ?thesis using step_extends [of e] x by blast
  next
    case (Assign_Signals sigs)
    then show ?thesis using step_extends [of e _ sigs] x by blast
  qed (use assms in simp_all)
qed

lemma fields_run:
  "i < length (ctxs s) \<Longrightarrow>
   i < length (ctxs (run evs s)) \<and>
   ancestors (ctxs (run evs s) ! i) = ancestors (ctxs s ! i) \<and>
   attached (ctxs (run evs s) ! i) = attached (ctxs s ! i)"
  by (induction evs arbitrary: s) (simp_all add: fields_step)

lemma cancel_unrelated:
  assumes "i \<noteq> x" and "i < length (ctxs s)" and "x \<notin> set (attached (ctxs s ! i))"
  shows "ctx_done (cancel x s) i = ctx_done s i"
  using assms by (simp add: ctx_done_cancel)

lemma run_watcher_unrelated:
  assumes "j < length (goroutines s)" and "goroutines s ! j = Watcher ch x"
    and "i \<noteq> x" and "i < length (ctxs s)" and "x \<notin> set (attached (ctxs s ! i))"
  shows "ctx_done (run_goroutine j b s) i = ctx_done s i"
  using assms by (simp add: run_goroutine_def ctx_done_cancel)

section \<open>As long as no signal arrives; once a signal has arrived; once the parent is done\<close>

lemma quiet_cancel:
  assumes h: "handle_inv p fp c ch gp g w m s" and q: "quiet p c ch s"
    and x: "x \<noteq> c \<or> ctx_done s c \<or> ctx_done s p"
  shows "quiet p c ch (cancel x s)"
proof -
  note d = handle_invD [OF h]
  have pl: "p < length (ctxs s)" using d(1,2) by simp
  have "ctx_done (cancel x s) p" if a: "ctx_done (cancel x s) c"
  proof (cases "ctx_done s c \<or> ctx_done s p")
    case True
    then have "ctx_done s p" using q by (auto simp: quiet_def)
    then show ?thesis by (rule ctx_done_cancel_mono)
  next
    case False
    then have nc: "\<not> ctx_done s c" and xc: "x \<noteq> c" using x by auto
    from a nc xc have m: "\<not> ctx_done s x" "x \<in> set (attached (ctxs s ! c))"
      by (auto simp: ctx_done_cancel)
    show ?thesis
    proof (cases fp)
      case True
      with d(13) [OF nc] m(2) show ?thesis by simp
    next
      case False
      with d(14) [OF nc] m pl show ?thesis by (auto simp: ctx_done_cancel)
    qed
  qed
  then show ?thesis using q by (auto simp: quiet_def)
qed

lemma quiet_chans:
  assumes "quiet p c ch s" and "ctxs s' = ctxs s" and "chans s' ! ch = chans s ! ch"
  shows "quiet p c ch s'"
proof -
  have "ctx_done s' = ctx_done s" using assms(2) by (simp add: ctx_done_def fun_eq_iff)
  with assms show ?thesis by (simp add: quiet_def)
qed

lemma quiet_deliver:
  assumes h: "handle_inv p fp c ch gp g w m s" and q: "quiet p c ch s"
    and n: "\<not> (sig \<in> m \<and> catchable sig)"
  shows "quiet p c ch (deliver sig s)"
proof (rule quiet_chans [OF q])
  note d = handle_invD [OF h]
  show "chans (deliver sig s) ! ch = chans s ! ch"
  proof (cases "catchable sig")
    case False
    then show ?thesis by (simp add: deliver_uncatchable)
  next
    case True
    with n have "sig \<notin> m" by simp
    then have "case map_of (handlers s) ch of None \<Rightarrow> True | Some h \<Rightarrow> sig \<notin> h"
      using d(11,12) by (cases "goroutines s ! w = Exited") (simp_all del: map_of_eq_Some_iff)
    then show ?thesis using d(5) by (rule deliver_unwanted [rotated])
  qed
qed simp

lemma quiet_run_goroutine:
  assumes h: "handle_inv p fp c ch gp g w m s" and q: "quiet p c ch s"
  shows "quiet p c ch (run_goroutine i b s)"
proof (cases "i < length (goroutines s)")
  case False
  then show ?thesis using q by (simp add: run_goroutine_def)
next
  case i: True
  note d = handle_invD [OF h]
  have nr: "\<not> readable s ch" using q by (simp add: quiet_def readable_def)
  show ?thesis
  proof (cases "goroutines s ! i")
    case Exited
    then show ?thesis using q i by (simp add: run_goroutine_def)
  next
    case (Watcher ch' c')
    then have iw: "i \<noteq> w" using handle_inv_waiter [OF h] by auto
    show ?thesis
    proof (cases "ch' = ch")
      case True
      have "quiet p c ch (finish i s)" by (rule quiet_chans [OF q]) simp_all
      then show ?thesis using i Watcher True nr q by (simp add: run_goroutine_def)
    next
      case False
      then have cc: "c' \<noteq> c" using handle_inv_touch [OF h i iw] Watcher by auto
      have r: "quiet p c ch (recv ch' s)"
        by (rule quiet_chans [OF q]) (simp_all add: recv_other False)
      have "quiet p c ch (cancel c' (recv ch' s))"
        by (rule quiet_cancel [OF handle_inv_recv [OF h] r]) (simp add: cc)
      then have 1: "quiet p c ch (finish i (cancel c' (recv ch' s)))"
        by (rule quiet_chans) simp_all
      have 2: "quiet p c ch (finish i s)" by (rule quiet_chans [OF q]) simp_all
      show ?thesis using i Watcher 1 2 q by (simp add: run_goroutine_def)
    qed
  next
    case (Propagator p' c')
    then have iw: "i \<noteq> w" using handle_inv_waiter [OF h] by auto
    have x: "c' \<noteq> c \<or> ctx_done s c \<or> ctx_done s p" if "ctx_done s p'"
      using handle_inv_touch [OF h i iw] Propagator that by auto
    have 1: "quiet p c ch (finish i (cancel c' s))" if "ctx_done s p'"
      by (rule quiet_chans [OF quiet_cancel [OF h q x [OF that]]]) simp_all
    have 2: "quiet p c ch (finish i s)" by (rule quiet_chans [OF q]) simp_all
    show ?thesis using i Propagator 1 2 q by (simp add: run_goroutine_def)
  next
    case (Waiter c' f)
    obtain c'' ch' where f: "f = Stop_func c'' ch'" by (cases f)
    have x: "c'' \<noteq> c \<or> ctx_done s c \<or> ctx_done s p" if "ctx_done s c'"
    proof (cases "i = w")
      case True
      then have "c' = c" using handle_inv_waiter [OF h] Waiter by auto
      with that show ?thesis by simp
    next
      case False
      then show ?thesis using handle_inv_touch [OF h i False] Waiter f by auto
    qed
    have "quiet p c ch (finish i (Stop ch' (cancel c'' s)))" if "ctx_done s c'"
      by (rule quiet_chans [OF quiet_cancel [OF h q x [OF that]]]) simp_all
    then show ?thesis using i Waiter f q by (simp add: run_goroutine_def call_cancel_def)
  qed
qed

lemma extends_trigger:
  assumes h: "handle_inv p fp c ch gp g w m s" and x: "extends b s s'"
    and n: "\<not> ctx_done s c" and a: "ctx_done s' c"
  shows "ctx_done s' p"
proof -
  note d = handle_invD [OF h] and e = extendsD [OF x]
  have pl: "p < length (ctxs s)" using d(1,2) by simp
  from a n e(6) [OF d(2)] have m: "b" "length (ctxs s) \<in> set (attached (ctxs s ! c))" by auto
  show ?thesis
  proof (cases fp)
    case True
    with d(13) [OF n] m(2) show ?thesis by simp
  next
    case False
    with d(14) [OF n] m pl e(6) [OF pl] show ?thesis by auto
  qed
qed

lemma quiet_extends:
  assumes h: "handle_inv p fp c ch gp g w m s" and q: "quiet p c ch s"
    and x: "extends b s s'"
  shows "quiet p c ch s'"
proof -
  note d = handle_invD [OF h] and e = extendsD [OF x]
  have pl: "p < length (ctxs s)" using d(1,2) by simp
  from e(7) obtain ys where ys: "chans s' = chans s @ ys" by blast
  have "chans s' ! ch = None" using q d(3) by (simp add: ys nth_append quiet_def)
  moreover have "ctx_done s' p" if a: "ctx_done s' c"
  proof (cases "ctx_done s c")
    case True
    then have "ctx_done s p" using q by (simp add: quiet_def)
    then show ?thesis by (rule ctx_done_extends_mono [OF x])
  next
    case False
    then show ?thesis by (rule extends_trigger [OF h x _ a])
  qed
  ultimately show ?thesis by (simp add: quiet_def)
qed

lemma quiet_step:
  assumes h: "handle_inv p fp c ch gp g w m s" and q: "quiet p c ch s" and n: "\<not> delivers m e"
  shows "quiet p c ch (step e s)"
proof (cases e)
  case (Deliver sig)
  then show ?thesis using quiet_deliver [OF h q, of sig] n by (simp add: delivers_def)
next
  case (Cancel x)
  have "quiet p c ch (cancel x s)" if "user_cancel (ctxs s ! x)"
    by (rule quiet_cancel [OF h q]) (use that handle_invD(7) [OF h] in auto)
  then show ?thesis using q by (simp add: Cancel)
next
  case (Run i b)
  then show ?thesis using quiet_run_goroutine [OF h q] by simp
next
  case (Call_WithCancel p')
  then show ?thesis using step_extends [of e p'] quiet_extends [OF h q] by blast
next
  case (Call_Handle p')
  then show ?thesis using step_extends [of e p'] quiet_extends [OF h q] by blast
next
  case Call_Foreign
  then show ?thesis using step_extends [of e] quiet_extends [OF h q] by blast
next
  case (Assign_Signals sigs)
  then show ?thesis using step_extends [of e _ sigs] quiet_extends [OF h q] by blast
qed

lemma quiet_run:
  "handle_inv p fp c ch gp g w m s \<Longrightarrow> quiet p c ch s \<Longrightarrow> \<not> list_ex (delivers m) evs \<Longrightarrow>
   quiet p c ch (run evs s)"
  by (induction evs arbitrary: s) (simp_all add: quiet_step handle_inv_step)

lemma pending_deliver:
  assumes h: "handle_inv p fp c ch gp g w m s" and s: "sig \<in> m" and k: "catchable sig"
  shows "pending c ch (deliver sig s)"
proof (cases "goroutines s ! w = Exited")
  case True
  then show ?thesis using handle_invD(11) [OF h] by (simp add: pending_def)
next
  case False
  then have "map_of (handlers s) ch = Some m" using handle_invD(12) [OF h] by simp
  then have "chans (deliver sig s) ! ch \<noteq> None"
    using deliver_wanted [OF handle_invD(3) [OF h] _ s k] by blast
  then show ?thesis using handle_invD(3) [OF h] by (simp add: pending_def readable_def)
qed

lemma pending_run_goroutine:
  assumes h: "handle_inv p fp c ch gp g w m s" and q: "pending c ch s"
  shows "pending c ch (run_goroutine i b s)"
proof (cases "ctx_done s c")
  case True
  then show ?thesis by (simp add: pending_def ctx_done_run_goroutine_mono)
next
  case nd: False
  then have rd: "readable s ch" using q by (simp add: pending_def)
  show ?thesis
  proof (cases "i < length (goroutines s)")
    case False
    then show ?thesis using q by (simp add: run_goroutine_def)
  next
    case i: True
    show ?thesis
    proof (cases "goroutines s ! i")
      case Exited
      then show ?thesis using q i by (simp add: run_goroutine_def)
    next
      case (Watcher ch' c')
      then have iw: "i \<noteq> w" using handle_inv_waiter [OF h] by auto
      show ?thesis
      proof (cases "ch' = ch")
        case True
        then have "c' = c" using handle_inv_touch [OF h i iw] Watcher by auto
        then show ?thesis
          using i Watcher True rd nd handle_invD(2) [OF h]
          by (simp add: run_goroutine_def pending_def ctx_done_cancel)
      next
        case False
        have "readable (recv ch' s) ch"
          using rd False by (simp add: readable_def recv_def)
        then have "readable (finish i (cancel c' (recv ch' s))) ch"
          by (simp add: readable_def)
        moreover have "readable (finish i s) ch" using rd by (simp add: readable_def)
        ultimately show ?thesis
          using i Watcher rd by (simp add: run_goroutine_def pending_def)
      qed
    next
      case (Propagator p' c')
      have "readable (finish i (cancel c' s)) ch" "readable (finish i s) ch"
        using rd by (simp_all add: readable_def)
      then show ?thesis
        using i Propagator rd by (simp add: run_goroutine_def pending_def)
    next
      case (Waiter c' f)
      obtain c'' ch' where f: "f = Stop_func c'' ch'" by (cases f)
      have "readable (finish i (Stop ch' (cancel c'' s))) ch"
        using rd by (simp add: readable_def)
      then show ?thesis
        using i Waiter f rd by (simp add: run_goroutine_def pending_def call_cancel_def)
    qed
  qed
qed

lemma pending_extends:
  assumes h: "handle_inv p fp c ch gp g w m s" and q: "pending c ch s"
    and x: "extends b s s'"
  shows "pending c ch s'"
proof (cases "ctx_done s c")
  case True
  then show ?thesis using ctx_done_extends_mono [OF x] by (simp add: pending_def)
next
  case False
  then have rd: "readable s ch" using q by (simp add: pending_def)
  from extendsD(7) [OF x] obtain ys where "chans s' = chans s @ ys" by blast
  then have "readable s' ch" using rd by (simp add: readable_def nth_append)
  then show ?thesis by (simp add: pending_def)
qed

lemma pending_step:
  assumes h: "handle_inv p fp c ch gp g w m s" and q: "pending c ch s"
  shows "pending c ch (step e s)"
proof (cases "ctx_done s c")
  case True
  then show ?thesis by (simp add: pending_def ctx_done_step_mono)
next
  case False
  then have rd: "readable s ch" using q by (simp add: pending_def)
  then obtain v where v: "chans s ! ch = Some v" and l: "ch < length (chans s)"
    by (auto simp: readable_def)
  show ?thesis
  proof (cases e)
    case (Deliver sig)
    then show ?thesis using deliver_keeps [OF v] l by (simp add: pending_def readable_def)
  next
    case (Cancel x)
    then show ?thesis using rd by (simp add: pending_def readable_def)
  next
    case (Run i b)
    then show ?thesis using pending_run_goroutine [OF h q] by simp
  next
    case (Call_WithCancel p')
    then show ?thesis using step_extends [of e p'] pending_extends [OF h q] by blast
  next
    case (Call_Handle p')
    then show ?thesis using step_extends [of e p'] pending_extends [OF h q] by blast
  next
    case Call_Foreign
    then show ?thesis using step_extends [of e] pending_extends [OF h q] by blast
  next
    case (Assign_Signals sigs)
    then show ?thesis using step_extends [of e _ sigs] pending_extends [OF h q] by blast
  qed
qed

lemma pending_run:
  "handle_inv p fp c ch gp g w m s \<Longrightarrow> pending c ch s \<Longrightarrow> pending c ch (run evs s)"
  by (induction evs arbitrary: s) (simp_all add: pending_step handle_inv_step)

lemma pending_watcher_runs:
  assumes h: "handle_inv p fp c ch gp g w m s" and q: "pending c ch s"
  shows "ctx_done (run_goroutine g b s) c"
proof (cases "ctx_done s c")
  case True
  then show ?thesis by (rule ctx_done_run_goroutine_mono)
next
  case False
  then have "readable s ch" using q by (simp add: pending_def)
  then show ?thesis
    using False handle_invD(9) [OF h False] handle_invD(2) [OF h]
    by (simp add: run_goroutine_def ctx_done_cancel)
qed

lemma propagator_runs:
  assumes h: "handle_inv p fp c ch gp g w m s" and dp: "ctx_done s p"
  shows "ctx_done (run_goroutine gp b s) c"
proof (cases "ctx_done s c")
  case True
  then show ?thesis by (rule ctx_done_run_goroutine_mono)
next
  case False
  then have fp using handle_invD(8) [OF h] dp by blast
  then show ?thesis
    using False dp handle_invD(13) [OF h False] handle_invD(2) [OF h]
    by (simp add: run_goroutine_def ctx_done_cancel)
qed

section \<open>What makes the derived context done; what removes the registration\<close>

lemma cancel_trigger:
  assumes h: "handle_inv p fp c ch gp g w m s"
    and n: "\<not> ctx_done s c" and a: "ctx_done (cancel x s) c"
  shows "x = c \<or> ctx_done (cancel x s) p"
proof (cases "x = c")
  case False
  note d = handle_invD [OF h]
  have pl: "p < length (ctxs s)" using d(1,2) by simp
  from a n False have m: "\<not> ctx_done s x" "x \<in> set (attached (ctxs s ! c))"
    by (auto simp: ctx_done_cancel)
  show ?thesis
  proof (cases fp)
    case True
    with d(13) [OF n] m(2) show ?thesis by simp
  next
    case False
    with d(14) [OF n] m pl show ?thesis by (auto simp: ctx_done_cancel)
  qed
qed simp

lemma step_trigger:
  assumes h: "handle_inv p fp c ch gp g w m s"
    and n: "\<not> ctx_done s c" and a: "ctx_done (step e s) c"
  shows "ctx_done (step e s) p \<or>
         (\<exists>i b. e = Run i b \<and> i < length (goroutines s) \<and>
                 goroutines s ! i = Watcher ch c \<and> readable s ch)"
proof (cases e)
  case (Deliver sig)
  then show ?thesis using n a by simp
next
  case (Cancel x)
  then have u: "user_cancel (ctxs s ! x)" and ac: "ctx_done (cancel x s) c"
    using n a by (auto split: if_splits)
  then have "x \<noteq> c" using handle_invD(7) [OF h] by auto
  then show ?thesis using cancel_trigger [OF h n ac] u Cancel a n by (auto split: if_splits)
next
  case (Run i b)
  show ?thesis
  proof (cases "i < length (goroutines s)")
    case False
    then show ?thesis using n a Run by (simp add: run_goroutine_def)
  next
    case i: True
    show ?thesis
    proof (cases "goroutines s ! i")
      case Exited
      then show ?thesis using n a Run i by (simp add: run_goroutine_def)
    next
      case (Watcher ch' c')
      then have iw: "i \<noteq> w" using handle_inv_waiter [OF h] by auto
      have fire: "readable s ch' \<and> (b \<or> \<not> ctx_done s c')"
        using n a Run i Watcher by (auto simp: run_goroutine_def split: if_splits)
      then have st: "step e s = finish i (cancel c' (recv ch' s))"
        using Run i Watcher by (simp add: run_goroutine_def)
      have hr: "handle_inv p fp c ch gp g w m (recv ch' s)" by (rule handle_inv_recv [OF h])
      have "c' = c \<or> ctx_done (cancel c' (recv ch' s)) p"
        by (rule cancel_trigger [OF hr]) (use n a st in simp_all)
      then show ?thesis
      proof
        assume cc: "c' = c"
        then have "goroutines s ! i = Watcher ch c"
          using handle_inv_touch [OF h i iw] Watcher by auto
        then show ?thesis using Run i fire Watcher by auto
      next
        assume "ctx_done (cancel c' (recv ch' s)) p"
        then show ?thesis by (simp add: st)
      qed
    next
      case (Propagator p' c')
      then have iw: "i \<noteq> w" using handle_inv_waiter [OF h] by auto
      have fire: "ctx_done s p' \<and> (b \<or> \<not> ctx_done s c')"
        using n a Run i Propagator by (auto simp: run_goroutine_def split: if_splits)
      then have st: "step e s = finish i (cancel c' s)"
        using Run i Propagator by (simp add: run_goroutine_def)
      have "c' = c \<or> ctx_done (cancel c' s) p"
        by (rule cancel_trigger [OF h n]) (use a st in simp)
      then show ?thesis
      proof
        assume cc: "c' = c"
        then have "p' = p" using handle_inv_touch [OF h i iw] Propagator by auto
        with fire have "ctx_done s p" by simp
        then show ?thesis by (simp add: ctx_done_step_mono)
      next
        assume "ctx_done (cancel c' s) p"
        then show ?thesis by (simp add: st)
      qed
    next
      case (Waiter c' f)
      obtain c'' ch' where f: "f = Stop_func c'' ch'" by (cases f)
      have fire: "ctx_done s c'"
        using n a Run i Waiter by (auto simp: run_goroutine_def split: if_splits)
      then have st: "step e s = finish i (Stop ch' (cancel c'' s))"
        using Run i Waiter f by (simp add: run_goroutine_def call_cancel_def)
      have ne: "c'' \<noteq> c"
      proof (cases "i = w")
        case True
        then have "c' = c" using handle_inv_waiter [OF h] Waiter by auto
        with fire n show ?thesis by simp
      next
        case False
        then show ?thesis using handle_inv_touch [OF h i False] Waiter f by auto
      qed
      have "c'' = c \<or> ctx_done (cancel c'' s) p"
        by (rule cancel_trigger [OF h n]) (use a st in simp)
      with ne show ?thesis by (simp add: st)
    qed
  qed
next
  case (Call_WithCancel p')
  then show ?thesis using step_extends [of e p'] extends_trigger [OF h _ n a] by blast
next
  case (Call_Handle p')
  then show ?thesis using step_extends [of e p'] extends_trigger [OF h _ n a] by blast
next
  case Call_Foreign
  then show ?thesis using step_extends [of e] extends_trigger [OF h _ n a] by blast
next
  case (Assign_Signals sigs)
  then show ?thesis using step_extends [of e _ sigs] extends_trigger [OF h _ n a] by blast
qed

lemma goroutines_run_goroutine:
  "goroutines (run_goroutine i b s) = goroutines s \<or>
   goroutines (run_goroutine i b s) = (goroutines s)[i := Exited]"
  by (auto simp: run_goroutine_def call_cancel_def split: goroutine.splits cancel_func.splits)

lemma exited_extends:
  assumes "extends b s s'" and "w < length (goroutines s)" and "goroutines s ! w = Exited"
  shows "w < length (goroutines s') \<and> goroutines s' ! w = Exited"
proof -
  from extendsD(10) [OF assms(1)] obtain xs where "goroutines s' = goroutines s @ xs" by blast
  with assms(2,3) show ?thesis by (simp add: nth_append)
qed

lemma exited_step:
  assumes "w < length (goroutines s)" and "goroutines s ! w = Exited"
  shows "w < length (goroutines (step e s)) \<and> goroutines (step e s) ! w = Exited"
proof (cases e)
  case (Run i b)
  have "(goroutines s)[i := Exited] ! w = Exited"
    using assms by (cases "i = w") simp_all
  with goroutines_run_goroutine [of i b s] assms show ?thesis
    by (auto simp: Run)
next
  case (Call_WithCancel p')
  then show ?thesis using step_extends [of e p'] exited_extends [OF _ assms] by blast
next
  case (Call_Handle p')
  then show ?thesis using step_extends [of e p'] exited_extends [OF _ assms] by blast
next
  case Call_Foreign
  then show ?thesis using step_extends [of e] exited_extends [OF _ assms] by blast
next
  case (Assign_Signals sigs)
  then show ?thesis using step_extends [of e _ sigs] exited_extends [OF _ assms] by blast
qed (use assms in simp_all)

lemma exited_run:
  "w < length (goroutines s) \<Longrightarrow> goroutines s ! w = Exited \<Longrightarrow>
   w < length (goroutines (run evs s)) \<and> goroutines (run evs s) ! w = Exited"
  by (induction evs arbitrary: s) (simp_all add: exited_step)

lemma registration_iff_waiting:
  assumes h: "handle_inv p fp c ch gp g w m s"
  shows "map_of (handlers s) ch = (if goroutines s ! w = Exited then None else Some m)"
  using handle_invD(11,12) [OF h] by (simp del: map_of_eq_Some_iff)

lemma removed_stays_removed:
  assumes h: "handle_inv p fp c ch gp g w m s" and r: "map_of (handlers s) ch = None"
  shows "map_of (handlers (run evs s)) ch = None"
proof -
  have e: "goroutines s ! w = Exited"
    using registration_iff_waiting [OF h] r by (simp split: if_splits)
  then have "goroutines (run evs s) ! w = Exited"
    using exited_run [OF handle_invD(4) [OF h]] by simp
  then show ?thesis
    using registration_iff_waiting [OF handle_inv_run [OF h], of evs] by simp
qed

lemma waiter_removes:
  assumes h: "handle_inv p fp c ch gp g w m s" and d: "ctx_done s c"
  shows "map_of (handlers (run_goroutine w b s)) ch = None"
proof (cases "goroutines s ! w = Exited")
  case True
  then show ?thesis
    using handle_invD(4,11) [OF h] by (simp add: run_goroutine_def)
next
  case False
  then have "goroutines s ! w = Waiter c (Stop_func c ch)"
    using handle_invD(12) [OF h] by simp
  then show ?thesis
    using handle_invD(4) [OF h] d by (simp add: run_goroutine_def call_cancel_def Stop_map_of)
qed

lemma unregistered_not_intercepted:
  assumes r: "map_of (handlers s) ch = None"
    and o: "list_all (\<lambda>h. fst h = ch \<or> sig \<notin> snd h) (handlers s)"
  shows "\<not> intercepted s sig"
proof
  assume "intercepted s sig"
  then obtain h where h: "h \<in> set (handlers s)" "sig \<in> snd h"
    by (auto simp: intercepted_def list_ex_iff)
  with o have "fst h = ch" by (auto simp: list_all_iff)
  with h(1) have "ch \<in> fst ` set (handlers s)" by auto
  with r show False by (simp add: map_of_eq_None_iff)
qed

section \<open>Every reachable state is well formed\<close>

lemma wfI:
  assumes a: "\<And>i a. i < length (ctxs s) \<Longrightarrow> a \<in> set (ancestors (ctxs s ! i)) \<Longrightarrow> a < length (ctxs s)"
    and t: "\<And>i a. i < length (ctxs s) \<Longrightarrow> a \<in> set (attached (ctxs s ! i)) \<Longrightarrow>
              a \<in> set (ancestors (ctxs s ! i))"
    and g: "\<And>g. g \<in> set (goroutines s) \<Longrightarrow> wf_goroutine s g"
    and h: "fst ` set (handlers s) \<subseteq> {..<length (chans s)}"
    and d: "distinct (map fst (handlers s))"
  shows "wf_state s"
proof -
  have "\<forall>x \<in> set (ctxs s). wf_ctx s x"
  proof
    fix x assume "x \<in> set (ctxs s)"
    then obtain i where "i < length (ctxs s)" "ctxs s ! i = x"
      by (auto simp: in_set_conv_nth)
    with a [of i] t [of i] show "wf_ctx s x" by (auto simp: wf_ctx_def list_all_iff)
  qed
  moreover have "\<forall>x \<in> set (handlers s). fst x < length (chans s)" using h by auto
  ultimately show ?thesis
    unfolding wf_state_def list_all_iff using g d by blast
qed

lemma wfD:
  assumes "wf_state s"
  shows "\<And>i a. i < length (ctxs s) \<Longrightarrow> a \<in> set (ancestors (ctxs s ! i)) \<Longrightarrow> a < length (ctxs s)"
    and "\<And>g. g \<in> set (goroutines s) \<Longrightarrow> wf_goroutine s g"
    and "fst ` set (handlers s) \<subseteq> {..<length (chans s)}"
    and "distinct (map fst (handlers s))"
    and "\<And>i a. i < length (ctxs s) \<Longrightarrow> a \<in> set (attached (ctxs s ! i)) \<Longrightarrow>
           a \<in> set (ancestors (ctxs s ! i))"
proof -
  show "\<And>i a. i < length (ctxs s) \<Longrightarrow> a \<in> set (ancestors (ctxs s ! i)) \<Longrightarrow> a < length (ctxs s)"
    using assms by (rule wf_ancestors)
  show "\<And>i a. i < length (ctxs s) \<Longrightarrow> a \<in> set (attached (ctxs s ! i)) \<Longrightarrow>
           a \<in> set (ancestors (ctxs s ! i))"
    using assms by (rule wf_attached)
  show "\<And>g. g \<in> set (goroutines s) \<Longrightarrow> wf_goroutine s g"
    and "fst ` set (handlers s) \<subseteq> {..<length (chans s)}"
    and "distinct (map fst (handlers s))"
    using assms unfolding wf_state_def list_all_iff by auto
qed

lemma wf_goroutine_mono:
  assumes "wf_goroutine s g" and "length (ctxs s) \<le> length (ctxs s')"
    and "length (chans s) \<le> length (chans s')"
  shows "wf_goroutine s' g"
  using assms by (auto simp: wf_goroutine_def split: goroutine.splits cancel_func.splits)

lemma wf_init_state: "wf_state (init_state pf)"
  by (simp add: wf_state_def wf_ctx_def init_state_def background_def)

lemma wf_cancel:
  assumes w: "wf_state s"
  shows "wf_state (cancel x s)"
proof (rule wfI)
  show "\<And>i a. i < length (ctxs (cancel x s)) \<Longrightarrow>
      a \<in> set (ancestors (ctxs (cancel x s) ! i)) \<Longrightarrow> a < length (ctxs (cancel x s))"
    using wfD(1) [OF w] by simp
  show "\<And>i a. i < length (ctxs (cancel x s)) \<Longrightarrow>
      a \<in> set (attached (ctxs (cancel x s) ! i)) \<Longrightarrow> a \<in> set (ancestors (ctxs (cancel x s) ! i))"
    using wfD(5) [OF w] by simp
  show "\<And>g. g \<in> set (goroutines (cancel x s)) \<Longrightarrow> wf_goroutine (cancel x s) g"
    by (rule wf_goroutine_mono [OF wfD(2) [OF w]]) simp_all
  show "fst ` set (handlers (cancel x s)) \<subseteq> {..<length (chans (cancel x s))}"
    using wfD(3) [OF w] by simp
  show "distinct (map fst (handlers (cancel x s)))" using wfD(4) [OF w] by simp
qed

lemma wf_same_shape:
  assumes w: "wf_state s" and "ctxs s' = ctxs s" and "length (chans s') = length (chans s)"
    and "set (goroutines s') \<subseteq> insert Exited (set (goroutines s))"
    and "fst ` set (handlers s') \<subseteq> fst ` set (handlers s)"
    and "distinct (map fst (handlers s'))"
  shows "wf_state s'"
proof (rule wfI)
  show "\<And>i a. i < length (ctxs s') \<Longrightarrow>
      a \<in> set (ancestors (ctxs s' ! i)) \<Longrightarrow> a < length (ctxs s')"
    using wfD(1) [OF w] assms(2) by simp
  show "\<And>i a. i < length (ctxs s') \<Longrightarrow>
      a \<in> set (attached (ctxs s' ! i)) \<Longrightarrow> a \<in> set (ancestors (ctxs s' ! i))"
    using wfD(5) [OF w] assms(2) by simp
  show "\<And>g. g \<in> set (goroutines s') \<Longrightarrow> wf_goroutine s' g"
  proof -
    fix g assume "g \<in> set (goroutines s')"
    then have "g = Exited \<or> g \<in> set (goroutines s)" using assms(4) by auto
    then show "wf_goroutine s' g"
    proof
      assume "g = Exited"
      then show ?thesis by (simp add: wf_goroutine_def)
    next
      assume "g \<in> set (goroutines s)"
      then have "wf_goroutine s g" by (rule wfD(2) [OF w])
      then show ?thesis by (rule wf_goroutine_mono) (simp_all add: assms(2,3))
    qed
  qed
  show "fst ` set (handlers s') \<subseteq> {..<length (chans s')}"
    using wfD(3) [OF w] assms(3,5) by auto
  show "distinct (map fst (handlers s'))" by (rule assms(6))
qed

lemma wf_deliver:
  assumes w: "wf_state s"
  shows "wf_state (deliver sig s)"
  by (rule wf_same_shape [OF w]) (use wfD(4) [OF w] in auto)

lemma wf_recv:
  assumes w: "wf_state s"
  shows "wf_state (recv ch s)"
  by (rule wf_same_shape [OF w]) (use wfD(4) [OF w] in auto)

lemma wf_finish:
  assumes w: "wf_state s"
  shows "wf_state (finish i s)"
proof (rule wf_same_shape [OF w])
  show "set (goroutines (finish i s)) \<subseteq> insert Exited (set (goroutines s))"
    using set_update_subset_insert [of "goroutines s" i Exited] by simp
qed (use wfD(4) [OF w] in auto)

lemma wf_Stop:
  assumes w: "wf_state s"
  shows "wf_state (Stop ch s)"
proof (rule wf_same_shape [OF w])
  show "fst ` set (handlers (Stop ch s)) \<subseteq> fst ` set (handlers s)"
    by (simp add: Stop_def dom_delete_subset)
  show "distinct (map fst (handlers (Stop ch s)))"
    using wfD(4) [OF w] by (rule Stop_distinct)
qed auto

lemma wf_assign:
  assumes w: "wf_state s"
  shows "wf_state (s\<lparr>signals_var := sigs\<rparr>)"
  by (rule wf_same_shape [OF w]) (use wfD(4) [OF w] in auto)

lemma wf_run_goroutine: "wf_state s \<Longrightarrow> wf_state (run_goroutine i b s)"
  by (auto simp: run_goroutine_def call_cancel_def wf_finish wf_Stop wf_cancel wf_recv
           split: goroutine.splits cancel_func.splits)

lemma wf_new_foreign:
  assumes w: "wf_state s"
  shows "wf_state (new_foreign s)"
proof (rule wfI)
  show "\<And>i a. i < length (ctxs (new_foreign s)) \<Longrightarrow>
      a \<in> set (ancestors (ctxs (new_foreign s) ! i)) \<Longrightarrow> a < length (ctxs (new_foreign s))"
  proof -
    fix i a
    assume i: "i < length (ctxs (new_foreign s))"
      and a: "a \<in> set (ancestors (ctxs (new_foreign s) ! i))"
    show "a < length (ctxs (new_foreign s))"
    proof (cases "i < length (ctxs s)")
      case True
      then show ?thesis using wfD(1) [OF w True, of a] a by simp
    next
      case False
      with i have "i = length (ctxs s)" by simp
      then show ?thesis using a by simp
    qed
  qed
  show "\<And>i a. i < length (ctxs (new_foreign s)) \<Longrightarrow>
      a \<in> set (attached (ctxs (new_foreign s) ! i)) \<Longrightarrow>
      a \<in> set (ancestors (ctxs (new_foreign s) ! i))"
  proof -
    fix i a
    assume i: "i < length (ctxs (new_foreign s))"
      and a: "a \<in> set (attached (ctxs (new_foreign s) ! i))"
    show "a \<in> set (ancestors (ctxs (new_foreign s) ! i))"
    proof (cases "i < length (ctxs s)")
      case True
      then show ?thesis using wfD(5) [OF w True, of a] a by simp
    next
      case False
      with i have "i = length (ctxs s)" by simp
      then show ?thesis using a by simp
    qed
  qed
  show "\<And>g. g \<in> set (goroutines (new_foreign s)) \<Longrightarrow> wf_goroutine (new_foreign s) g"
    by (rule wf_goroutine_mono [OF wfD(2) [OF w]]) simp_all
  show "fst ` set (handlers (new_foreign s)) \<subseteq> {..<length (chans (new_foreign s))}"
    using wfD(3) [OF w] by simp
  show "distinct (map fst (handlers (new_foreign s)))" using wfD(4) [OF w] by simp
qed

lemma wf_derive:
  assumes w: "wf_state s" and p: "p < length (ctxs s)"
  shows "wf_state (propagateCancel p (length (ctxs s)) (new_ctx p held s))"
proof (rule wfI)
  let ?d = "propagateCancel p (length (ctxs s)) (new_ctx p held s)"
  have an: "ancestors (ctxs ?d ! i) =
      (if i < length (ctxs s) then ancestors (ctxs s ! i) else p # ancestors (ctxs s ! p))"
    if "i < length (ctxs ?d)" for i
  proof (cases "i < length (ctxs s)")
    case True
    then show ?thesis by simp
  next
    case False
    with that have "i = length (ctxs s)" by simp
    then show ?thesis using p by (simp add: ancestors_of_def)
  qed
  have at: "set (attached (ctxs ?d ! i)) \<subseteq>
      (if i < length (ctxs s) then set (attached (ctxs s ! i))
       else insert p (set (attached (ctxs s ! p))))"
    if "i < length (ctxs ?d)" for i
  proof (cases "i < length (ctxs s)")
    case True
    then show ?thesis by (simp add: propagateCancel_attached)
  next
    case False
    with that have "i = length (ctxs s)" by simp
    then show ?thesis using p attached_derive [OF p, of held] by (simp add: attached_of_def)
  qed
  show "\<And>i a. i < length (ctxs ?d) \<Longrightarrow> a \<in> set (ancestors (ctxs ?d ! i)) \<Longrightarrow>
      a < length (ctxs ?d)"
  proof -
    fix i a
    assume i: "i < length (ctxs ?d)" and a: "a \<in> set (ancestors (ctxs ?d ! i))"
    show "a < length (ctxs ?d)"
      using a an [OF i] wfD(1) [OF w, of i a] wfD(1) [OF w p, of a] p
      by (auto split: if_splits)
  qed
  show "\<And>i a. i < length (ctxs ?d) \<Longrightarrow> a \<in> set (attached (ctxs ?d ! i)) \<Longrightarrow>
      a \<in> set (ancestors (ctxs ?d ! i))"
  proof -
    fix i a
    assume i: "i < length (ctxs ?d)" and a: "a \<in> set (attached (ctxs ?d ! i))"
    show "a \<in> set (ancestors (ctxs ?d ! i))"
      using a at [OF i] an [OF i] wfD(5) [OF w, of i a] wfD(5) [OF w p, of a]
      by (auto split: if_splits)
  qed
  show "\<And>g. g \<in> set (goroutines ?d) \<Longrightarrow> wf_goroutine ?d g"
  proof -
    fix g assume "g \<in> set (goroutines ?d)"
    then have "g \<in> set (goroutines s) \<or> g = Propagator p (length (ctxs s))"
      by (auto simp: propagateCancel_goroutines split: if_splits)
    then show "wf_goroutine ?d g"
    proof
      assume "g \<in> set (goroutines s)"
      then have "wf_goroutine s g" by (rule wfD(2) [OF w])
      then show ?thesis by (rule wf_goroutine_mono) simp_all
    next
      assume "g = Propagator p (length (ctxs s))"
      then show ?thesis using p by (simp add: wf_goroutine_def)
    qed
  qed
  show "fst ` set (handlers ?d) \<subseteq> {..<length (chans ?d)}"
    using wfD(3) [OF w] by simp
  show "distinct (map fst (handlers ?d))" using wfD(4) [OF w] by simp
qed

lemma wf_Handle:
  assumes w: "wf_state s" and p: "p < length (ctxs s)"
    and h: "Handle signals (Some p) s = Inr (c, s1)"
  shows "wf_state s1"
proof -
  let ?d = "propagateCancel p (length (ctxs s)) (new_ctx p False s)"
  let ?b = "Notify (length (chans s)) signals (snd (make_chan ?d))"
  note o = Handle_obs [OF h]
  have wd: "wf_state ?d" by (rule wf_derive [OF w p])
  have hs: "handlers s1 = handlers ?b"
    using h unfolding Handle_Some Let_def by (auto split: if_splits)
  have cx: "ctxs s1 = ctxs ?d"
    using h unfolding Handle_Some Let_def by (auto split: if_splits)
  show ?thesis
  proof (rule wfI)
    show "\<And>i a. i < length (ctxs s1) \<Longrightarrow> a \<in> set (ancestors (ctxs s1 ! i)) \<Longrightarrow>
        a < length (ctxs s1)"
      using wfD(1) [OF wd] by (simp add: cx)
    show "\<And>i a. i < length (ctxs s1) \<Longrightarrow> a \<in> set (attached (ctxs s1 ! i)) \<Longrightarrow>
        a \<in> set (ancestors (ctxs s1 ! i))"
      using wfD(5) [OF wd] by (simp add: cx)
    show "\<And>g. g \<in> set (goroutines s1) \<Longrightarrow> wf_goroutine s1 g"
    proof -
      fix g assume "g \<in> set (goroutines s1)"
      then have "g \<in> set (goroutines s) \<or> g = Propagator p c \<or>
          g = Watcher (length (chans s)) c \<or>
          g = Waiter c (Stop_func c (length (chans s)))"
        by (auto simp: o(11) split: if_splits)
      then show "wf_goroutine s1 g"
      proof (elim disjE)
        assume "g \<in> set (goroutines s)"
        then have "wf_goroutine s g" by (rule wfD(2) [OF w])
        then show ?thesis by (rule wf_goroutine_mono) (simp_all add: o(2) o(8))
      qed (use p in \<open>simp_all add: wf_goroutine_def o(1) o(2) o(8)\<close>)
    qed
    show "fst ` set (handlers s1) \<subseteq> {..<length (chans s1)}"
      using wfD(3) [OF w] by (auto simp: hs o(8) Notify_def Let_def dom_update)
    show "distinct (map fst (handlers s1))" using wfD(4) [OF w] by (rule o(10))
  qed
qed

lemma wf_step:
  assumes w: "wf_state s"
  shows "wf_state (step e s)"
proof (cases e)
  case (Call_WithCancel p')
  have "wf_state (propagateCancel p' (length (ctxs s)) (new_ctx p' True s))" if "p' < length (ctxs s)"
    by (rule wf_derive [OF w that])
  then show ?thesis
    using w by (simp add: Call_WithCancel WithCancel_def Let_def result_state_def valid_ctx_def)
next
  case (Call_Handle p')
  obtain c' s1 where r: "Handle (signals_var s) (Some p') s = Inr (c', s1)"
    by (simp add: Handle_Some)
  show ?thesis
    using w wf_Handle [OF w _ r]
    by (simp add: Call_Handle r result_state_def valid_ctx_def)
qed (simp_all add: w wf_deliver wf_cancel wf_run_goroutine wf_new_foreign wf_assign)

lemma wf_run: "wf_state s \<Longrightarrow> wf_state (run evs s)"
  by (induction evs arbitrary: s) (simp_all add: wf_step)

section \<open>The derived context at the return and afterwards\<close>

lemma reachable_wf: "wf_state (run evs (init_state pf))"
  by (rule wf_run [OF wf_init_state])

lemma done_at_return:
  assumes "Handle signals (Some p) s = Inr (c, s1)"
  shows "ctx_done s1 c \<longleftrightarrow> ctx_done s p"
proof -
  note o = Handle_obs [OF assms]
  have "\<not> ctx_done s c" by (simp add: o(1) ctx_done_def)
  then show ?thesis by (simp add: o(7))
qed

lemma quiet_at_return:
  assumes "Handle signals (Some p) s = Inr (c, s1)"
  shows "quiet p c (length (chans s)) s1"
  using done_at_return [OF assms] Handle_obs(7,8) [OF assms] by (simp add: quiet_def)

lemma only_after_parent:
  assumes h: "handle_inv p fp c ch gp g w m s" and q: "quiet p c ch s"
    and n: "\<not> list_ex (delivers m) evs"
  shows "ctx_done (run evs s) c \<longrightarrow> ctx_done (run evs s) p"
  using quiet_run [OF h q n] by (simp add: quiet_def)

lemma follows_attached_parent:
  assumes h: "handle_inv p False c ch gp g w m s" and d: "ctx_done (run evs s) p"
  shows "ctx_done (run evs s) c"
  using handle_invD(8) [OF handle_inv_run [OF h]] d by blast

lemma parent_then_propagator:
  assumes h: "handle_inv p fp c ch gp g w m s" and d: "ctx_done (run evs1 s) p"
  shows "ctx_done (run (evs1 @ evs2 @ [Run gp b]) s) c"
proof -
  have h2: "handle_inv p fp c ch gp g w m (run evs2 (run evs1 s))"
    by (rule handle_inv_run [OF handle_inv_run [OF h]])
  have "ctx_done (run evs2 (run evs1 s)) p" using d by (rule ctx_done_run_mono)
  then have "ctx_done (run_goroutine gp b (run evs2 (run evs1 s))) c"
    by (rule propagator_runs [OF h2])
  then show ?thesis by simp
qed

lemma signal_then_watcher:
  assumes h: "handle_inv p fp c ch gp g w m s" and sig: "sig \<in> m" and k: "catchable sig"
  shows "ctx_done (run (evs1 @ Deliver sig # evs2 @ [Run g b]) s) c"
proof -
  have h1: "handle_inv p fp c ch gp g w m (run evs1 s)" by (rule handle_inv_run [OF h])
  have h2: "handle_inv p fp c ch gp g w m (deliver sig (run evs1 s))"
    by (rule handle_inv_deliver [OF h1])
  have "pending c ch (deliver sig (run evs1 s))" by (rule pending_deliver [OF h1 sig k])
  then have "pending c ch (run evs2 (deliver sig (run evs1 s)))" by (rule pending_run [OF h2])
  then have "ctx_done (run_goroutine g b (run evs2 (deliver sig (run evs1 s)))) c"
    by (rule pending_watcher_runs [OF handle_inv_run [OF h2]])
  then show ?thesis by simp
qed

section \<open>The variable Signals\<close>

lemma signals_var_run_goroutine [simp]: "signals_var (run_goroutine i b s) = signals_var s"
  by (simp add: run_goroutine_def call_cancel_def split: goroutine.splits cancel_func.splits)

lemma signals_var_Handle:
  "signals_var (result_state (Handle signals parent s) s) = signals_var s"
proof (cases parent)
  case None
  then show ?thesis by (simp add: Handle_None result_state_def)
next
  case (Some p)
  obtain c s1 where r: "Handle signals (Some p) s = Inr (c, s1)"
    by (simp add: Handle_Some)
  show ?thesis using Handle_obs(13) [OF r] by (simp add: Some r result_state_def)
qed

lemma signals_var_step:
  "signals_var (step e s) = (case e of Assign_Signals sigs \<Rightarrow> sigs | _ \<Rightarrow> signals_var s)"
proof (cases e)
  case (Call_WithCancel p')
  obtain c s1 where r: "WithCancel (Some p') True s = Inr (c, s1)"
    by (simp add: WithCancel_def Let_def)
  show ?thesis using WithCancel_obs(10) [OF r] by (simp add: Call_WithCancel r result_state_def)
next
  case (Call_Handle p')
  then show ?thesis by (simp add: signals_var_Handle)
qed simp_all

lemma signals_var_run:
  "\<not> list_ex assigns evs \<Longrightarrow> signals_var (run evs s) = signals_var s"
  by (induction evs arbitrary: s)
     (simp_all add: signals_var_step assigns_def split: event.splits)

section \<open>The claims\<close>

text \<open>
  C1. Let \<open>Handle\<close>, called in a well-formed state with an existing parent \<open>p\<close>,
  return the context \<open>c\<close>, and let \<open>n\<close> be the size of the goroutine pool at the
  call. Then:
  \<^item> at the return, \<open>c\<close> is done exactly if \<open>p\<close> was done already;
  \<^item> when \<open>p\<close> is one of package \<open>context\<close>'s own contexts: after every run, if \<open>p\<close>
    is done then \<open>c\<close> is done (the cancellation of \<open>p\<close> reaches \<open>c\<close> within the call
    that cancels \<open>p\<close>);
  \<^item> for every parent, also one of another implementation: after every run in which
    \<open>p\<close> has become done and the goroutine at position \<open>n\<close> of the pool has been
    scheduled afterwards, \<open>c\<close> is done (for a parent of another implementation that
    goroutine is the one with which package \<open>context\<close> watches the parent's Done
    channel; until it runs, \<open>c\<close> can still be not done);
  \<^item> after every run in which a signal of the registered set that a program can catch is
    delivered and the goroutine of \<open>NotifyContext\<close> is scheduled afterwards, \<open>c\<close> is
    done;
  \<^item> after every run in which no such signal is delivered, \<open>c\<close> is done only if \<open>p\<close>
    is: with a parent that never becomes done, \<open>c\<close> stays not done for ever.
  A run is any list of events: signals, cancellations of contexts the program can cancel,
  schedulings of goroutines, further calls of \<open>WithCancel\<close> and \<open>Handle\<close>, new
  contexts of other implementations, assignments to \<open>Signals\<close>.
\<close>

theorem Handle_done_exactly_when:
  assumes "wf_state s" and "valid_ctx s p"
    and "Handle signals (Some p) s = Inr (c, s1)"
    and "sig \<in> sigmask signals" and "catchable sig"
    and "\<not> list_ex (delivers (sigmask signals)) evs0"
    and "n = length (goroutines s)"
  shows "(ctx_done s1 c \<longleftrightarrow> ctx_done s p) \<and>
         (\<not> foreign_ctx s p \<and> ctx_done (run evs s1) p \<longrightarrow> ctx_done (run evs s1) c) \<and>
         (ctx_done (run evs1 s1) p \<longrightarrow> ctx_done (run (evs1 @ evs2 @ [Run n b]) s1) c) \<and>
         ctx_done (run (evs3 @ Deliver sig # evs4 @
                        [Run (if foreign_ctx s p then Suc n else n) b']) s1) c \<and>
         (ctx_done (run evs0 s1) c \<longrightarrow> ctx_done (run evs0 s1) p)"
proof -
  let ?ch = "length (chans s)"
  let ?g = "if foreign_ctx s p then Suc n else n"
  let ?w = "if ctx_done s p then n else if foreign_ctx s p then Suc (Suc n) else Suc n"
  have p: "p < length (ctxs s)" using assms(2) by (simp add: valid_ctx_def)
  have h: "handle_inv p (foreign_ctx s p) c ?ch n ?g ?w (sigmask signals) s1"
    by (rule handle_inv_established [OF assms(1) p assms(3) assms(7)])
  have "ctx_done s1 c \<longleftrightarrow> ctx_done s p" by (rule done_at_return [OF assms(3)])
  moreover have "\<not> foreign_ctx s p \<and> ctx_done (run evs s1) p \<longrightarrow> ctx_done (run evs s1) c"
  proof
    assume a: "\<not> foreign_ctx s p \<and> ctx_done (run evs s1) p"
    with h have "handle_inv p False c ?ch n ?g ?w (sigmask signals) s1" by simp
    then show "ctx_done (run evs s1) c" using a by (simp add: follows_attached_parent)
  qed
  moreover have "ctx_done (run evs1 s1) p \<longrightarrow> ctx_done (run (evs1 @ evs2 @ [Run n b]) s1) c"
    using parent_then_propagator [OF h] by blast
  moreover have "ctx_done (run (evs3 @ Deliver sig # evs4 @ [Run ?g b']) s1) c"
    by (rule signal_then_watcher [OF h assms(4,5)])
  moreover have "ctx_done (run evs0 s1) c \<longrightarrow> ctx_done (run evs0 s1) p"
    by (rule only_after_parent [OF h quiet_at_return [OF assms(3)] assms(6)])
  ultimately show ?thesis by blast
qed

theorem Handle_done_exactly_when_witness:
  "wf_state program_state \<and> valid_ctx program_state 1 \<and>
   Handle (Signals Unix_like) (Some 1) program_state = Inr (2, handled_state) \<and>
   wf_state foreign_program_state \<and> valid_ctx foreign_program_state 1 \<and>
   Handle (Signals Unix_like) (Some 1) foreign_program_state = Inr (2, foreign_handled_state) \<and>
   SIGTERM \<in> sigmask (Signals Unix_like) \<and> catchable SIGTERM \<and>
   \<not> list_ex (delivers (sigmask (Signals Unix_like)))
       [Run 0 True, Deliver (Other_signal 1), Deliver SIGKILL, Run 1 True] \<and>
   0 = length (goroutines program_state) \<and> 0 = length (goroutines foreign_program_state) \<and>
   \<not> foreign_ctx program_state 1 \<and> foreign_ctx foreign_program_state 1 \<and>
   \<not> ctx_done program_state 1 \<and> \<not> ctx_done handled_state 2 \<and>
   ctx_done (run [Cancel 1] handled_state) 1 \<and>
   ctx_done (run [Cancel 1] handled_state) 2 \<and>
   ctx_done (run ([Run 1 True] @ Deliver SIGTERM # [Deliver Interrupt] @ [Run 0 False])
               handled_state) 2 \<and>
   \<not> ctx_done (run [Run 0 True, Deliver (Other_signal 1), Deliver SIGKILL, Run 1 True]
                 handled_state) 2 \<and>
   \<not> ctx_done foreign_program_state 1 \<and> \<not> ctx_done foreign_handled_state 2 \<and>
   ctx_done (run [Cancel 1] foreign_handled_state) 1 \<and>
   \<not> ctx_done (run [Cancel 1] foreign_handled_state) 2 \<and>
   ctx_done (run ([Cancel 1] @ [Deliver (Other_signal 1)] @ [Run 0 False])
               foreign_handled_state) 2 \<and>
   ctx_done (run ([Run 2 True] @ Deliver SIGTERM # [Deliver Interrupt] @ [Run 1 False])
               foreign_handled_state) 2 \<and>
   \<not> ctx_done (run [Run 0 True, Deliver (Other_signal 1), Deliver SIGKILL, Run 1 True]
                 foreign_handled_state) 2"
proof -
  let ?e0 = "[Run 0 True, Deliver (Other_signal 1), Deliver SIGKILL, Run 1 True]"
  have a: "wf_state program_state" by code_simp
  have b: "valid_ctx program_state 1" by code_simp
  have c: "Handle (Signals Unix_like) (Some 1) program_state = Inr (2, handled_state)"
    by code_simp
  have a': "wf_state foreign_program_state" by code_simp
  have b': "valid_ctx foreign_program_state 1" by code_simp
  have c': "Handle (Signals Unix_like) (Some 1) foreign_program_state =
      Inr (2, foreign_handled_state)"
    by code_simp
  have d: "SIGTERM \<in> sigmask (Signals Unix_like)" "catchable SIGTERM" by code_simp+
  have e: "\<not> list_ex (delivers (sigmask (Signals Unix_like))) ?e0" by code_simp
  have l: "0 = length (goroutines program_state)"
    "0 = length (goroutines foreign_program_state)" by code_simp+
  have f: "\<not> foreign_ctx program_state 1" "foreign_ctx foreign_program_state 1" by code_simp+
  have g: "\<not> ctx_done program_state 1" "ctx_done (run [Cancel 1] handled_state) 1"
    "\<not> ctx_done (run ?e0 handled_state) 1"
    "\<not> ctx_done foreign_program_state 1" "ctx_done (run [Cancel 1] foreign_handled_state) 1"
    "\<not> ctx_done (run [Cancel 1] foreign_handled_state) 2"
    "\<not> ctx_done (run ?e0 foreign_handled_state) 1"
    by code_simp+
  from Handle_done_exactly_when [OF a b c d e l(1),
      where evs = "[Cancel 1]" and ?evs1.0 = "[Cancel 1]" and ?evs2.0 = "[]" and b = True
        and ?evs3.0 = "[Run 1 True]" and ?evs4.0 = "[Deliver Interrupt]" and b' = False]
  have 1: "\<not> ctx_done handled_state 2 \<and>
        ctx_done (run [Cancel 1] handled_state) 2 \<and>
        ctx_done (run ([Run 1 True] @ Deliver SIGTERM # [Deliver Interrupt] @ [Run 0 False])
                    handled_state) 2 \<and>
        \<not> ctx_done (run ?e0 handled_state) 2"
    using f(1) g(1,2,3) by simp
  from Handle_done_exactly_when [OF a' b' c' d e l(2),
      where ?evs1.0 = "[Cancel 1]" and ?evs2.0 = "[Deliver (Other_signal 1)]" and b = False
        and ?evs3.0 = "[Run 2 True]" and ?evs4.0 = "[Deliver Interrupt]" and b' = False]
  have 2: "\<not> ctx_done foreign_handled_state 2 \<and>
        ctx_done (run ([Cancel 1] @ [Deliver (Other_signal 1)] @ [Run 0 False])
                    foreign_handled_state) 2 \<and>
        ctx_done (run ([Run 2 True] @ Deliver SIGTERM # [Deliver Interrupt] @ [Run 1 False])
                    foreign_handled_state) 2 \<and>
        \<not> ctx_done (run ?e0 foreign_handled_state) 2"
    using f(2) g(4,5,7) by simp
  from 1 2 show ?thesis using a b c a' b' c' d e l f g by blast
qed

text \<open>
  C2. Let \<open>Handle\<close> return \<open>c\<close>; let \<open>ch\<close> be the channel it registered and \<open>w\<close> the
  position of its goroutine in the pool (it is the last goroutine the call starts: after
  the goroutine of \<open>NotifyContext\<close>, which exists unless the parent was done already,
  and after the goroutine that watches a parent of another implementation). Then:
  \<^item> at the return the registration exists, and the goroutine waits with the cleanup
    function in hand;
  \<^item> after every run the registration exists exactly if that goroutine has not returned
    yet, and if the registration is gone then \<open>c\<close> is done: nothing removes it before;
  \<^item> once \<open>c\<close> is done (for whatever reason), the next scheduling of the goroutine
    removes the registration;
  \<^item> once removed, the registration is never there again, whatever happens: it is
    removed once;
  \<^item> after the removal a delivered signal does not reach the channel, and it takes the
    platform's default action unless another registration wants it.
  Between the moment \<open>c\<close> becomes done and the scheduling of the goroutine the
  registration is still in place: the removal happens after the transition, not in the
  same step.
\<close>

theorem registration_removed_once:
  assumes "wf_state s" and "valid_ctx s p"
    and "Handle signals (Some p) s = Inr (c, s1)"
    and "ch = length (chans s)"
    and "w = (if ctx_done s p then length (goroutines s)
              else if foreign_ctx s p then Suc (Suc (length (goroutines s)))
              else Suc (length (goroutines s)))"
    and "s' = run evs s1"
  shows "map_of (handlers s1) ch = Some (sigmask signals) \<and>
         goroutines s1 ! w = Waiter c (Stop_func c ch) \<and>
         map_of (handlers s') ch =
           (if goroutines s' ! w = Exited then None else Some (sigmask signals)) \<and>
         (map_of (handlers s') ch = None \<longrightarrow> ctx_done s' c) \<and>
         (ctx_done s' c \<longrightarrow> map_of (handlers (step (Run w b) s')) ch = None) \<and>
         (map_of (handlers s') ch = None \<longrightarrow> map_of (handlers (run evs' s')) ch = None) \<and>
         (map_of (handlers s') ch = None \<longrightarrow>
            chans (step (Deliver sig) s') ! ch = chans s' ! ch) \<and>
         (map_of (handlers s') ch = None \<and>
          list_all (\<lambda>h. fst h = ch \<or> sig \<notin> snd h) (handlers s') \<longrightarrow>
            step (Deliver sig) s' = s'\<lparr>defaulted := defaulted s' @ [sig]\<rparr>)"
proof -
  let ?m = "sigmask signals" and ?n = "length (goroutines s)"
  let ?g = "if foreign_ctx s p then Suc ?n else ?n"
  have p: "p < length (ctxs s)" using assms(2) by (simp add: valid_ctx_def)
  have h1: "handle_inv p (foreign_ctx s p) c ch ?n ?g w ?m s1"
    unfolding assms(4,5) by (rule handle_inv_established [OF assms(1) p assms(3) refl])
  have h: "handle_inv p (foreign_ctx s p) c ch ?n ?g w ?m s'"
    unfolding assms(6) by (rule handle_inv_run [OF h1])
  note o = Handle_obs [OF assms(3)]
  have 2: "goroutines s1 ! w = Waiter c (Stop_func c ch)"
    by (simp add: o(11) assms(4,5) nth_append)
  then have 1: "map_of (handlers s1) ch = Some ?m"
    using registration_iff_waiting [OF h1] by simp
  have 3: "map_of (handlers s') ch = (if goroutines s' ! w = Exited then None else Some ?m)"
    by (rule registration_iff_waiting [OF h])
  have 4: "map_of (handlers s') ch = None \<longrightarrow> ctx_done s' c"
    using 3 handle_invD(11) [OF h] by (auto split: if_splits)
  have 5: "ctx_done s' c \<longrightarrow> map_of (handlers (step (Run w b) s')) ch = None"
    using waiter_removes [OF h] by simp
  have 6: "map_of (handlers s') ch = None \<longrightarrow> map_of (handlers (run evs' s')) ch = None"
    using removed_stays_removed [OF h] by blast
  have 7: "map_of (handlers s') ch = None \<longrightarrow>
      chans (step (Deliver sig) s') ! ch = chans s' ! ch"
    using deliver_unwanted [OF handle_invD(5) [OF h], where ch = ch and sig = sig] by simp
  have 8: "map_of (handlers s') ch = None \<and>
      list_all (\<lambda>h. fst h = ch \<or> sig \<notin> snd h) (handlers s') \<longrightarrow>
      step (Deliver sig) s' = s'\<lparr>defaulted := defaulted s' @ [sig]\<rparr>"
    using unregistered_not_intercepted [of s' ch sig] by (auto simp: deliver_defaulted)
  from 1 2 3 4 5 6 7 8 show ?thesis by blast
qed

theorem registration_removed_once_witness:
  "wf_state program_state \<and> valid_ctx program_state 1 \<and>
   Handle (Signals Unix_like) (Some 1) program_state = Inr (2, handled_state) \<and>
   0 = length (chans program_state) \<and>
   1 = (if ctx_done program_state 1 then length (goroutines program_state)
        else if foreign_ctx program_state 1 then Suc (Suc (length (goroutines program_state)))
        else Suc (length (goroutines program_state))) \<and>
   map_of (handlers handled_state) 0 = Some (sigmask (Signals Unix_like)) \<and>
   goroutines handled_state ! 1 = Waiter 2 (Stop_func 2 0) \<and>
   goroutines (run [Deliver Interrupt, Run 0 True, Run 1 False] handled_state) ! 1 = Exited \<and>
   map_of (handlers (run [Deliver Interrupt, Run 0 True, Run 1 False] handled_state)) 0 = None \<and>
   ctx_done (run [Deliver Interrupt, Run 0 True, Run 1 False] handled_state) 2 \<and>
   map_of (handlers (step (Run 1 True)
      (run [Deliver Interrupt, Run 0 True, Run 1 False] handled_state))) 0 = None \<and>
   map_of (handlers (run [Call_Handle 0, Run 1 True]
      (run [Deliver Interrupt, Run 0 True, Run 1 False] handled_state))) 0 = None \<and>
   chans (step (Deliver Interrupt)
      (run [Deliver Interrupt, Run 0 True, Run 1 False] handled_state)) ! 0 =
     chans (run [Deliver Interrupt, Run 0 True, Run 1 False] handled_state) ! 0 \<and>
   list_all (\<lambda>h. fst h = 0 \<or> Interrupt \<notin> snd h)
     (handlers (run [Deliver Interrupt, Run 0 True, Run 1 False] handled_state)) \<and>
   step (Deliver Interrupt) (run [Deliver Interrupt, Run 0 True, Run 1 False] handled_state) =
     (run [Deliver Interrupt, Run 0 True, Run 1 False] handled_state)
       \<lparr>defaulted :=
          defaulted (run [Deliver Interrupt, Run 0 True, Run 1 False] handled_state) @ [Interrupt]\<rparr>"
proof -
  let ?s' = "run [Deliver Interrupt, Run 0 True, Run 1 False] handled_state"
  have a: "wf_state program_state" by code_simp
  have b: "valid_ctx program_state 1" by code_simp
  have c: "Handle (Signals Unix_like) (Some 1) program_state = Inr (2, handled_state)"
    by code_simp
  have d: "0 = length (chans program_state)" by code_simp
  have e: "1 = (if ctx_done program_state 1 then length (goroutines program_state)
        else if foreign_ctx program_state 1 then Suc (Suc (length (goroutines program_state)))
        else Suc (length (goroutines program_state)))" by code_simp
  have f: "goroutines ?s' ! 1 = Exited" by code_simp
  have g: "list_all (\<lambda>h. fst h = 0 \<or> Interrupt \<notin> snd h) (handlers ?s')" by code_simp
  from registration_removed_once [OF a b c d e refl,
      of "[Deliver Interrupt, Run 0 True, Run 1 False]" True "[Call_Handle 0, Run 1 True]" Interrupt]
  show ?thesis using a b c d e f g by simp
qed

text \<open>
  C3. The context that \<open>Handle\<close> derives is created not done; at the return it is done
  exactly if the parent was done already; after every run, once it is done it is done
  after every continuation of the run; and a step in which it becomes done is a step
  after which the parent is done, or a step of \<open>NotifyContext\<close>'s goroutine that finds
  a signal in the channel. (The cleanup function is in the hands of the goroutine of
  \<open>Handle\<close> alone, which calls it when the context is done already.)
\<close>

theorem derived_done_is_one_way:
  assumes "wf_state s" and "valid_ctx s p"
    and "Handle signals (Some p) s = Inr (c, s1)"
    and "s' = run evs2 s1"
  shows "\<not> ctx_done (new_ctx p False s) c \<and>
         (ctx_done s1 c \<longleftrightarrow> ctx_done s p) \<and>
         (ctx_done (run evs s1) c \<longrightarrow> ctx_done (run (evs @ evs') s1) c) \<and>
         (\<not> ctx_done s' c \<and> ctx_done (step e s') c \<longrightarrow>
            ctx_done (step e s') p \<or>
            (\<exists>i b. e = Run i b \<and> i < length (goroutines s') \<and>
                    goroutines s' ! i = Watcher (length (chans s)) c \<and>
                    readable s' (length (chans s))))"
proof -
  let ?ch = "length (chans s)" and ?n = "length (goroutines s)"
  let ?g = "if foreign_ctx s p then Suc ?n else ?n"
  let ?w = "if ctx_done s p then ?n else if foreign_ctx s p then Suc (Suc ?n) else Suc ?n"
  have p: "p < length (ctxs s)" using assms(2) by (simp add: valid_ctx_def)
  note o = Handle_obs [OF assms(3)]
  have h: "handle_inv p (foreign_ctx s p) c ?ch ?n ?g ?w (sigmask signals) s'"
    unfolding assms(4)
    by (rule handle_inv_run [OF handle_inv_established [OF assms(1) p assms(3) refl]])
  have c0: "\<not> ctx_done s c" by (simp add: o(1) ctx_done_def)
  have 1: "\<not> ctx_done (new_ctx p False s) c" using c0 by (simp add: ctx_done_new_ctx)
  have 2: "ctx_done s1 c \<longleftrightarrow> ctx_done s p" using c0 by (simp add: o(7))
  have 3: "ctx_done (run evs s1) c \<longrightarrow> ctx_done (run (evs @ evs') s1) c"
    by (simp add: ctx_done_run_mono)
  have 4: "\<not> ctx_done s' c \<and> ctx_done (step e s') c \<longrightarrow>
            ctx_done (step e s') p \<or>
            (\<exists>i b. e = Run i b \<and> i < length (goroutines s') \<and>
                    goroutines s' ! i = Watcher ?ch c \<and> readable s' ?ch)"
    using step_trigger [OF h] by blast
  from 1 2 3 4 show ?thesis by blast
qed

theorem derived_done_is_one_way_witness:
  "wf_state program_state \<and> valid_ctx program_state 1 \<and>
   Handle (Signals Unix_like) (Some 1) program_state = Inr (2, handled_state) \<and>
   \<not> ctx_done (new_ctx 1 False program_state) 2 \<and>
   \<not> ctx_done handled_state 2 \<and>
   ctx_done (run [Cancel 1] handled_state) 2 \<and>
   ctx_done (run ([Cancel 1] @ [Run 1 True, Deliver Interrupt, Run 0 True]) handled_state) 2 \<and>
   \<not> ctx_done (run [Deliver SIGTERM] handled_state) 2 \<and>
   ctx_done (step (Run 0 True) (run [Deliver SIGTERM] handled_state)) 2 \<and>
   \<not> ctx_done (step (Run 0 True) (run [Deliver SIGTERM] handled_state)) 1 \<and>
   goroutines (run [Deliver SIGTERM] handled_state) ! 0 = Watcher 0 2 \<and>
   readable (run [Deliver SIGTERM] handled_state) 0"
proof -
  have a: "wf_state program_state" by code_simp
  have b: "valid_ctx program_state 1" by code_simp
  have c: "Handle (Signals Unix_like) (Some 1) program_state = Inr (2, handled_state)"
    by code_simp
  have d: "ctx_done (run [Cancel 1] handled_state) 2" by code_simp
  have e: "\<not> ctx_done (run [Deliver SIGTERM] handled_state) 2" by code_simp
  have f: "ctx_done (step (Run 0 True) (run [Deliver SIGTERM] handled_state)) 2" by code_simp
  have g: "\<not> ctx_done (step (Run 0 True) (run [Deliver SIGTERM] handled_state)) 1" by code_simp
  have k: "goroutines (run [Deliver SIGTERM] handled_state) ! 0 = Watcher 0 2" by code_simp
  have l: "\<not> ctx_done program_state 1" by code_simp
  have m: "readable (run [Deliver SIGTERM] handled_state) 0" by code_simp
  from derived_done_is_one_way [OF a b c refl,
      of "[Cancel 1]" "[Run 1 True, Deliver Interrupt, Run 0 True]" "[Deliver SIGTERM]" "Run 0 True"]
  show ?thesis using a b c d e f g k l m by blast
qed

text \<open>
  C4. Running the cleanup of one \<open>Handle\<close> call (the \<open>cancel\<close> function that
  \<open>NotifyContext\<close> returns: cancel the context, then stop the channel) twice leaves the
  state that running it once leaves; and running it after the signal path has already
  cancelled the context leaves that same state too. The cleanup is a total function on
  states: it has no error result, and stopping a channel without a handler deletes nothing.
\<close>

theorem cleanup_idempotent:
  "call_cancel (Stop_func c ch) (call_cancel (Stop_func c ch) s) = call_cancel (Stop_func c ch) s \<and>
   call_cancel (Stop_func c ch) (cancel c s) = call_cancel (Stop_func c ch) s \<and>
   map_of (handlers (call_cancel (Stop_func c ch) s)) ch = None"
  by (simp add: call_cancel_def cancel_Stop Stop_idem cancel_idem Stop_map_of)

text \<open>
  C5. In every well-formed state and for every existing parent, \<open>Handle\<close> returns a
  result: a new context, valid in the state it returns, whose parent chain starts with
  the parent. No scheduling step is part of the call: in the state it returns, the
  goroutine it started is the last of the pool and has not run (it still holds the
  cleanup function, and the registration is in place), also when the parent was done
  already and the goroutine could proceed at once.
\<close>

theorem Handle_returns_at_once:
  assumes "wf_state s" and "valid_ctx s p"
  shows "\<exists>c s1. Handle signals (Some p) s = Inr (c, s1) \<and>
           c = length (ctxs s) \<and> valid_ctx s1 c \<and>
           ancestors_of s1 c = p # ancestors_of s p \<and>
           last (goroutines s1) = Waiter c (Stop_func c (length (chans s))) \<and>
           map_of (handlers s1) (length (chans s)) = Some (sigmask signals) \<and>
           (ctx_done s1 c \<longleftrightarrow> ctx_done s p)"
proof -
  obtain c s1 where r: "Handle signals (Some p) s = Inr (c, s1)"
    by (simp add: Handle_Some)
  note o = Handle_obs [OF r]
  have "valid_ctx s1 c" by (simp add: valid_ctx_def o(1) o(2))
  moreover have "ancestors_of s1 c = p # ancestors_of s p"
    using o(5) by (simp add: ancestors_of_def [of s1] o(1) o(2))
  moreover have "last (goroutines s1) = Waiter c (Stop_func c (length (chans s)))"
    by (simp add: o(11))
  moreover have "map_of (handlers s1) (length (chans s)) = Some (sigmask signals)"
    using wf_fresh_chan [OF assms(1)] by (simp add: o(9))
  moreover have "ctx_done s1 c \<longleftrightarrow> ctx_done s p"
    by (simp add: o(7)) (simp add: o(1) ctx_done_def)
  ultimately show ?thesis using r o(1) by blast
qed

theorem Handle_returns_at_once_witness:
  "wf_state program_state \<and> valid_ctx program_state 1 \<and>
   Handle (Signals Unix_like) (Some 1) program_state = Inr (2, handled_state) \<and>
   2 = length (ctxs program_state) \<and> valid_ctx handled_state 2 \<and>
   ancestors_of handled_state 2 = 1 # ancestors_of program_state 1 \<and>
   last (goroutines handled_state) = Waiter 2 (Stop_func 2 (length (chans program_state))) \<and>
   map_of (handlers handled_state) (length (chans program_state)) =
     Some (sigmask (Signals Unix_like)) \<and>
   \<not> ctx_done handled_state 2 \<and> \<not> ctx_done program_state 1"
proof -
  have a: "wf_state program_state" by code_simp
  have b: "valid_ctx program_state 1" by code_simp
  have c: "Handle (Signals Unix_like) (Some 1) program_state = Inr (2, handled_state)"
    by code_simp
  have d: "\<not> ctx_done program_state 1" by code_simp
  from Handle_returns_at_once [OF a b, of "Signals Unix_like"]
  obtain c' s1' where r: "Handle (Signals Unix_like) (Some 1) program_state = Inr (c', s1')"
    and f: "c' = length (ctxs program_state)" "valid_ctx s1' c'"
      "ancestors_of s1' c' = 1 # ancestors_of program_state 1"
      "last (goroutines s1') = Waiter c' (Stop_func c' (length (chans program_state)))"
      "map_of (handlers s1') (length (chans program_state)) = Some (sigmask (Signals Unix_like))"
      "ctx_done s1' c' \<longleftrightarrow> ctx_done program_state 1"
    by blast
  from r c have e: "c' = 2" "s1' = handled_state" by simp_all
  show ?thesis using a b c d f unfolding e by blast
qed

text \<open>
  C6. Let a call of \<open>Handle\<close> on \<open>p1\<close> return \<open>c1\<close> and a later call on \<open>p2\<close> return
  \<open>c2\<close>, both parents existing before the first call, with any events between the
  two calls and after them. Then, in every state reached:
  \<^item> cancelling one derived context changes neither the other derived context nor its
    own parent;
  \<^item> the step in which the goroutine of \<open>NotifyContext\<close> turns a signal into the
    cancellation of \<open>c1\<close> changes neither \<open>p1\<close> nor \<open>c2\<close>;
  \<^item> when \<open>p2\<close> is neither \<open>p1\<close> nor derived from it, cancelling \<open>p1\<close> (which makes
    \<open>c1\<close> done) leaves \<open>c2\<close> as it is.
\<close>

theorem derivations_independent:
  assumes "wf_state s" and "valid_ctx s p1" and "valid_ctx s p2"
    and "Handle sigs1 (Some p1) s = Inr (c1, s1)"
    and "Handle sigs2 (Some p2) (run evs0 s1) = Inr (c2, s2)"
    and "s' = run evs s2"
  shows "c1 \<noteq> c2 \<and>
         ctx_done (cancel c1 s') c2 = ctx_done s' c2 \<and>
         ctx_done (cancel c2 s') c1 = ctx_done s' c1 \<and>
         ctx_done (cancel c1 s') p1 = ctx_done s' p1 \<and>
         ctx_done (cancel c2 s') p2 = ctx_done s' p2 \<and>
         (i < length (goroutines s') \<and> goroutines s' ! i = Watcher ch c1 \<longrightarrow>
            ctx_done (step (Run i b) s') p1 = ctx_done s' p1 \<and>
            ctx_done (step (Run i b) s') c2 = ctx_done s' c2) \<and>
         (p1 \<notin> set (p2 # ancestors_of s p2) \<longrightarrow>
            ctx_done (step (Cancel p1) s') c2 = ctx_done s' c2)"
proof -
  let ?sm = "run evs0 s1"
  note o1 = Handle_obs [OF assms(4)] and o2 = Handle_obs [OF assms(5)]
  have p: "p1 < length (ctxs s)" "p2 < length (ctxs s)"
    using assms(2,3) by (simp_all add: valid_ctx_def)
  have v1: "p1 < length (ctxs s1)" "p2 < length (ctxs s1)" "c1 < length (ctxs s1)"
    using p by (simp_all add: o1(1) o1(2))
  note m1 = fields_run [OF v1(1), of evs0] and m2 = fields_run [OF v1(2), of evs0]
    and m3 = fields_run [OF v1(3), of evs0]
  have c: "c1 = length (ctxs s)" "c2 = length (ctxs ?sm)" by (simp_all add: o1(1) o2(1))
  have lt: "c1 < c2" using m3 by (simp add: c(2))
  have b1: "\<And>a. a \<in> set (ancestors (ctxs s ! p1)) \<Longrightarrow> a < c1"
    and b2: "\<And>a. a \<in> set (ancestors (ctxs s ! p2)) \<Longrightarrow> a < c1"
    using wf_ancestors [OF assms(1)] p unfolding c(1) by blast+
  have a1: "ancestors (ctxs s1 ! p1) = ancestors (ctxs s ! p1)"
    "ancestors (ctxs s1 ! p2) = ancestors (ctxs s ! p2)"
    "ancestors (ctxs s1 ! c1) = p1 # ancestors (ctxs s ! p1)"
    using p o1(5) by (simp_all add: o1(3) ancestors_of_def)
  have am: "ancestors (ctxs ?sm ! p1) = ancestors (ctxs s ! p1)"
    "ancestors (ctxs ?sm ! p2) = ancestors (ctxs s ! p2)"
    "ancestors (ctxs ?sm ! c1) = p1 # ancestors (ctxs s ! p1)"
    using m1 m2 m3 by (simp_all add: a1)
  have "ancestors_of ?sm p2 = ancestors (ctxs s ! p2)"
    using m2 by (simp add: ancestors_of_def am(2))
  then have a24: "ancestors (ctxs s2 ! c2) = p2 # ancestors (ctxs s ! p2)"
    using o2(5) by simp
  have a2: "ancestors (ctxs s2 ! p1) = ancestors (ctxs s ! p1)"
    "ancestors (ctxs s2 ! p2) = ancestors (ctxs s ! p2)"
    "ancestors (ctxs s2 ! c1) = p1 # ancestors (ctxs s ! p1)"
    using m1 m2 m3 by (simp_all add: o2(3) am)
  have v: "p1 < length (ctxs s2)" "p2 < length (ctxs s2)" "c1 < length (ctxs s2)"
    "c2 < length (ctxs s2)"
    using m1 m2 m3 by (simp_all add: o2(2) c(2))
  note r1 = fields_run [OF v(1), of evs] and r2 = fields_run [OF v(2), of evs]
    and r3 = fields_run [OF v(3), of evs] and r4 = fields_run [OF v(4), of evs]
  have a: "ancestors (ctxs s' ! p1) = ancestors (ctxs s ! p1)"
    "ancestors (ctxs s' ! p2) = ancestors (ctxs s ! p2)"
    "ancestors (ctxs s' ! c1) = p1 # ancestors (ctxs s ! p1)"
    "ancestors (ctxs s' ! c2) = p2 # ancestors (ctxs s ! p2)"
    using r1 r2 r3 r4 by (simp_all add: assms(6) a2 a24)
  have v': "p1 < length (ctxs s')" "p2 < length (ctxs s')" "c1 < length (ctxs s')"
    "c2 < length (ctxs s')"
    using r1 r2 r3 r4 by (simp_all add: assms(6))
  have w1: "wf_state s1" by (rule wf_Handle [OF assms(1) p(1) assms(4)])
  have pm: "p2 < length (ctxs ?sm)" using m2 by simp
  have w2: "wf_state s2" by (rule wf_Handle [OF wf_run [OF w1] pm assms(5)])
  have w': "wf_state s'" unfolding assms(6) by (rule wf_run [OF w2])
  have f: "c1 \<notin> set (ancestors (ctxs s ! p1))" "c1 \<notin> set (ancestors (ctxs s ! p2))"
    "c2 \<notin> set (ancestors (ctxs s ! p1))" "c2 \<notin> set (ancestors (ctxs s ! p2))"
    using b1 [of c1] b2 [of c1] b1 [of c2] b2 [of c2] lt by auto
  have e: "c1 \<noteq> p2" "c2 \<noteq> p1" "p1 \<noteq> c1" "p2 \<noteq> c2" "c1 \<noteq> c2" "c2 \<noteq> c1"
    using p lt by (simp_all add: c(1))
  have na: "c1 \<notin> set (ancestors (ctxs s' ! c2))" "c2 \<notin> set (ancestors (ctxs s' ! c1))"
    "c1 \<notin> set (ancestors (ctxs s' ! p1))" "c2 \<notin> set (ancestors (ctxs s' ! p2))"
    unfolding a using f e by simp_all
  have n: "c1 \<notin> set (attached (ctxs s' ! c2))" "c2 \<notin> set (attached (ctxs s' ! c1))"
    "c1 \<notin> set (attached (ctxs s' ! p1))" "c2 \<notin> set (attached (ctxs s' ! p2))"
    using na wf_attached [OF w' v'(4)] wf_attached [OF w' v'(3)]
      wf_attached [OF w' v'(1)] wf_attached [OF w' v'(2)] by blast+
  have 1: "ctx_done (cancel c1 s') c2 = ctx_done s' c2"
    by (rule cancel_unrelated [OF e(6) v'(4) n(1)])
  have 2: "ctx_done (cancel c2 s') c1 = ctx_done s' c1"
    by (rule cancel_unrelated [OF e(5) v'(3) n(2)])
  have 3: "ctx_done (cancel c1 s') p1 = ctx_done s' p1"
    by (rule cancel_unrelated [OF e(3) v'(1) n(3)])
  have 4: "ctx_done (cancel c2 s') p2 = ctx_done s' p2"
    by (rule cancel_unrelated [OF e(4) v'(2) n(4)])
  have 5: "i < length (goroutines s') \<and> goroutines s' ! i = Watcher ch c1 \<longrightarrow>
            ctx_done (step (Run i b) s') p1 = ctx_done s' p1 \<and>
            ctx_done (step (Run i b) s') c2 = ctx_done s' c2"
    using run_watcher_unrelated [OF _ _ e(3) v'(1) n(3), of i ch b]
      run_watcher_unrelated [OF _ _ e(6) v'(4) n(1), of i ch b]
    by simp
  have 6: "p1 \<notin> set (p2 # ancestors_of s p2) \<longrightarrow>
            ctx_done (step (Cancel p1) s') c2 = ctx_done s' c2"
  proof
    assume "p1 \<notin> set (p2 # ancestors_of s p2)"
    then have "p1 \<notin> set (ancestors (ctxs s' ! c2))"
      using p by (simp add: a ancestors_of_def)
    then have "p1 \<notin> set (attached (ctxs s' ! c2))"
      using wf_attached [OF w' v'(4)] by blast
    then have "ctx_done (cancel p1 s') c2 = ctx_done s' c2"
      using v'(4) e(2) by (simp add: cancel_unrelated)
    then show "ctx_done (step (Cancel p1) s') c2 = ctx_done s' c2" by simp
  qed
  from e(5) 1 2 3 4 5 6 show ?thesis by blast
qed

theorem derivations_independent_witness:
  "wf_state two_parents_state \<and> valid_ctx two_parents_state 1 \<and> valid_ctx two_parents_state 2 \<and>
   Handle (Signals Unix_like) (Some 1) two_parents_state = Inr (3, handled_first_state) \<and>
   Handle (Signals Unix_like) (Some 2) (run [Call_WithCancel 0] handled_first_state) =
     Inr (5, handled_both_state) \<and>
   (0::nat) < length (goroutines (run [Deliver Interrupt] handled_both_state)) \<and>
   goroutines (run [Deliver Interrupt] handled_both_state) ! 0 = Watcher 0 3 \<and>
   1 \<notin> set (2 # ancestors_of two_parents_state 2) \<and>
   ctx_done (cancel 3 (run [Deliver Interrupt] handled_both_state)) 3 \<and>
   \<not> ctx_done (cancel 3 (run [Deliver Interrupt] handled_both_state)) 5 \<and>
   \<not> ctx_done (cancel 3 (run [Deliver Interrupt] handled_both_state)) 1 \<and>
   ctx_done (cancel 5 (run [Deliver Interrupt] handled_both_state)) 5 \<and>
   \<not> ctx_done (cancel 5 (run [Deliver Interrupt] handled_both_state)) 3 \<and>
   \<not> ctx_done (cancel 5 (run [Deliver Interrupt] handled_both_state)) 2 \<and>
   ctx_done (step (Run 0 True) (run [Deliver Interrupt] handled_both_state)) 3 \<and>
   \<not> ctx_done (step (Run 0 True) (run [Deliver Interrupt] handled_both_state)) 1 \<and>
   \<not> ctx_done (step (Run 0 True) (run [Deliver Interrupt] handled_both_state)) 5 \<and>
   ctx_done (step (Cancel 1) (run [Deliver Interrupt] handled_both_state)) 3 \<and>
   \<not> ctx_done (step (Cancel 1) (run [Deliver Interrupt] handled_both_state)) 5"
proof -
  let ?s' = "run [Deliver Interrupt] handled_both_state"
  have a: "wf_state two_parents_state" by code_simp
  have b: "valid_ctx two_parents_state 1" "valid_ctx two_parents_state 2" by code_simp+
  have c: "Handle (Signals Unix_like) (Some 1) two_parents_state = Inr (3, handled_first_state)"
    by code_simp
  have d: "Handle (Signals Unix_like) (Some 2) (run [Call_WithCancel 0] handled_first_state) =
     Inr (5, handled_both_state)" by code_simp
  have e: "(0::nat) < length (goroutines ?s')" "goroutines ?s' ! 0 = Watcher 0 3" by code_simp+
  have f: "1 \<notin> set (2 # ancestors_of two_parents_state 2)" by code_simp
  have g: "\<not> ctx_done ?s' 1" "\<not> ctx_done ?s' 2" "\<not> ctx_done ?s' 3" "\<not> ctx_done ?s' 5"
    by code_simp+
  have k: "ctx_done (cancel 3 ?s') 3" "ctx_done (cancel 5 ?s') 5"
    "ctx_done (step (Run 0 True) ?s') 3" "ctx_done (step (Cancel 1) ?s') 3"
    by code_simp+
  from derivations_independent [OF a b c d refl,
      where evs = "[Deliver Interrupt]" and i = 0 and ch = 0 and b = True]
  show ?thesis using a b c d e f g k by blast
qed

text \<open>
  C7, as the code has it. For an existing parent \<open>Handle\<close> returns a result whatever
  the signal set is: it validates nothing. With the empty signal set the registration
  asks for every signal (\<open>signal.Notify\<close> without signals relays all incoming signals),
  so the derived context is not a pass-through of the parent. It is done at the return
  exactly if the parent was; it is done when the parent is done (at once for a parent of
  package \<open>context\<close>, after the scheduling of the goroutine at position \<open>n\<close> for every
  parent); it is done once any signal that a program can catch has been delivered and
  the goroutine of \<open>NotifyContext\<close> has been scheduled; and in the runs in which no
  such signal is delivered it is done only if the parent is. \<open>SIGKILL\<close> and \<open>SIGSTOP\<close>
  never reach the registration.
\<close>

theorem Handle_validates_nothing_empty_set_wants_all:
  assumes "wf_state s" and "valid_ctx s p"
    and "Handle [] (Some p) s = Inr (c, s1)"
    and "catchable sig"
    and "\<not> list_ex (delivers UNIV) evs0"
    and "n = length (goroutines s)"
  shows "\<not> isl (Handle signals (Some p) s) \<and>
         map_of (handlers s1) (length (chans s)) = Some UNIV \<and>
         (ctx_done s1 c \<longleftrightarrow> ctx_done s p) \<and>
         (\<not> foreign_ctx s p \<and> ctx_done (run evs s1) p \<longrightarrow> ctx_done (run evs s1) c) \<and>
         (ctx_done (run evs1 s1) p \<longrightarrow> ctx_done (run (evs1 @ evs2 @ [Run n b]) s1) c) \<and>
         ctx_done (run (evs3 @ Deliver sig # evs4 @
                        [Run (if foreign_ctx s p then Suc n else n) b']) s1) c \<and>
         (ctx_done (run evs0 s1) c \<longrightarrow> ctx_done (run evs0 s1) p)"
proof -
  let ?ch = "length (chans s)"
  let ?g = "if foreign_ctx s p then Suc n else n"
  let ?w = "if ctx_done s p then n else if foreign_ctx s p then Suc (Suc n) else Suc n"
  have m: "sigmask [] = UNIV" by (simp add: sigmask_def)
  have p: "p < length (ctxs s)" using assms(2) by (simp add: valid_ctx_def)
  have h: "handle_inv p (foreign_ctx s p) c ?ch n ?g ?w UNIV s1"
    using handle_inv_established [OF assms(1) p assms(3) assms(6)] by (simp add: m)
  have "\<not> isl (Handle signals (Some p) s)" by (simp add: Handle_Some)
  moreover have "map_of (handlers s1) ?ch = Some UNIV"
    using wf_fresh_chan [OF assms(1)] by (simp add: Handle_obs(9) [OF assms(3)] m)
  moreover have "ctx_done s1 c \<longleftrightarrow> ctx_done s p" by (rule done_at_return [OF assms(3)])
  moreover have "\<not> foreign_ctx s p \<and> ctx_done (run evs s1) p \<longrightarrow> ctx_done (run evs s1) c"
  proof
    assume a: "\<not> foreign_ctx s p \<and> ctx_done (run evs s1) p"
    with h have "handle_inv p False c ?ch n ?g ?w UNIV s1" by simp
    then show "ctx_done (run evs s1) c" using a by (simp add: follows_attached_parent)
  qed
  moreover have "ctx_done (run evs1 s1) p \<longrightarrow> ctx_done (run (evs1 @ evs2 @ [Run n b]) s1) c"
    using parent_then_propagator [OF h] by blast
  moreover have "ctx_done (run (evs3 @ Deliver sig # evs4 @ [Run ?g b']) s1) c"
    by (rule signal_then_watcher [OF h _ assms(4)]) simp
  moreover have "ctx_done (run evs0 s1) c \<longrightarrow> ctx_done (run evs0 s1) p"
    by (rule only_after_parent [OF h _ assms(5)])
       (use quiet_at_return [OF assms(3)] in simp)
  ultimately show ?thesis by blast
qed

theorem Handle_validates_nothing_empty_set_wants_all_witness:
  "wf_state emptied_state \<and> valid_ctx emptied_state 1 \<and> signals_var emptied_state = [] \<and>
   Handle [] (Some 1) emptied_state = Inr (2, emptied_handled_state) \<and>
   catchable (Other_signal 1) \<and>
   \<not> list_ex (delivers UNIV) [Run 0 True, Deliver SIGKILL, Deliver SIGSTOP, Run 1 False] \<and>
   0 = length (goroutines emptied_state) \<and> \<not> foreign_ctx emptied_state 1 \<and>
   \<not> isl (Handle [] (Some 1) emptied_state) \<and>
   map_of (handlers emptied_handled_state) (length (chans emptied_state)) = Some UNIV \<and>
   \<not> ctx_done emptied_state 1 \<and> \<not> ctx_done emptied_handled_state 2 \<and>
   ctx_done (run [Cancel 1] emptied_handled_state) 1 \<and>
   ctx_done (run [Cancel 1] emptied_handled_state) 2 \<and>
   ctx_done (run ([Cancel 1] @ [Deliver SIGKILL] @ [Run 0 True]) emptied_handled_state) 2 \<and>
   ctx_done (run ([Deliver SIGKILL] @ Deliver (Other_signal 1) # [] @ [Run 0 True])
               emptied_handled_state) 2 \<and>
   \<not> ctx_done (run [Run 0 True, Deliver SIGKILL, Deliver SIGSTOP, Run 1 False]
                 emptied_handled_state) 2"
proof -
  let ?e0 = "[Run 0 True, Deliver SIGKILL, Deliver SIGSTOP, Run 1 False]"
  have a: "wf_state emptied_state" by code_simp
  have b: "valid_ctx emptied_state 1" by code_simp
  have c: "Handle [] (Some 1) emptied_state = Inr (2, emptied_handled_state)" by code_simp
  have d: "catchable (Other_signal 1)" by code_simp
  have e: "\<not> list_ex (delivers UNIV) ?e0" by code_simp
  have l: "0 = length (goroutines emptied_state)" by code_simp
  have f: "\<not> foreign_ctx emptied_state 1" "signals_var emptied_state = []" by code_simp+
  have g: "\<not> ctx_done emptied_state 1" "ctx_done (run [Cancel 1] emptied_handled_state) 1"
    "\<not> ctx_done (run ?e0 emptied_handled_state) 1"
    by code_simp+
  from Handle_validates_nothing_empty_set_wants_all [OF a b c d e l,
      where signals = "[]" and evs = "[Cancel 1]" and ?evs1.0 = "[Cancel 1]"
        and ?evs2.0 = "[Deliver SIGKILL]" and b = True
        and ?evs3.0 = "[Deliver SIGKILL]" and ?evs4.0 = "[]" and b' = True]
  have "\<not> isl (Handle [] (Some 1) emptied_state) \<and>
        map_of (handlers emptied_handled_state) (length (chans emptied_state)) = Some UNIV \<and>
        \<not> ctx_done emptied_handled_state 2 \<and>
        ctx_done (run [Cancel 1] emptied_handled_state) 2 \<and>
        ctx_done (run ([Cancel 1] @ [Deliver SIGKILL] @ [Run 0 True]) emptied_handled_state) 2 \<and>
        ctx_done (run ([Deliver SIGKILL] @ Deliver (Other_signal 1) # [] @ [Run 0 True])
                    emptied_handled_state) 2 \<and>
        \<not> ctx_done (run ?e0 emptied_handled_state) 2"
    using f(1) g by simp
  then show ?thesis using a b c d e l f g by blast
qed

text \<open>
  C7, as the specification states it, fails: with the empty signal set the derived
  context is not a pass-through of the parent. Here the program has assigned the empty
  list to \<open>Signals\<close> and calls \<open>Handle\<close> on \<open>context.Background()\<close>; an unrelated
  signal then makes the derived context 1 done while its parent is not done.
\<close>

theorem empty_signal_set_is_no_pass_through:
  "signals_var (run [Assign_Signals []] (init_state Unix_like)) = [] \<and>
   Handle [] (Some 0) (run [Assign_Signals []] (init_state Unix_like)) =
     Inr (1, run [Assign_Signals [], Call_Handle 0] (init_state Unix_like)) \<and>
   ctx_done (run [Assign_Signals [], Call_Handle 0, Deliver (Other_signal 1), Run 0 True]
               (init_state Unix_like)) 1 \<and>
   \<not> ctx_done (run [Assign_Signals [], Call_Handle 0, Deliver (Other_signal 1), Run 0 True]
                 (init_state Unix_like)) 0"
  by code_simp

text \<open>
  C8, as the code has it. \<open>Signals\<close> is a variable of the package, one per process:
  its initial value depends on the platform only (on a unix-like platform the interrupt
  signal followed by the termination signal, elsewhere the interrupt signal alone);
  \<open>Handle\<close> reads it at every call and registers the value it finds, and never writes
  it; no event other than an assignment by the program changes it; an assignment
  changes it. So the signal set is the same at all calls exactly as long as the program
  does not assign the variable.
\<close>

theorem Signals_variable_per_platform:
  "Signals Unix_like = [Interrupt, SIGTERM] \<and> Signals Non_unix = [Interrupt] \<and>
   signals_var (init_state pf) = Signals pf \<and>
   signals_var (result_state (Handle signals parent s) s) = signals_var s \<and>
   (\<not> list_ex assigns evs \<longrightarrow> signals_var (run evs s) = signals_var s) \<and>
   signals_var (step (Assign_Signals sigs) s) = sigs \<and>
   (wf_state s \<and> valid_ctx s p \<longrightarrow>
      map_of (handlers (step (Call_Handle p) s)) (length (chans s)) =
        Some (sigmask (signals_var s)))"
proof -
  have "wf_state s \<and> valid_ctx s p \<longrightarrow>
      map_of (handlers (step (Call_Handle p) s)) (length (chans s)) =
        Some (sigmask (signals_var s))"
  proof
    assume a: "wf_state s \<and> valid_ctx s p"
    obtain c s1 where r: "Handle (signals_var s) (Some p) s = Inr (c, s1)"
      by (simp add: Handle_Some)
    have "map_of (handlers s1) (length (chans s)) = Some (sigmask (signals_var s))"
      using a wf_fresh_chan [of s] by (simp add: Handle_obs(9) [OF r])
    then show "map_of (handlers (step (Call_Handle p) s)) (length (chans s)) =
        Some (sigmask (signals_var s))"
      using a by (simp add: r result_state_def)
  qed
  then show ?thesis
    by (simp add: Signals_def init_state_def signals_var_Handle signals_var_run)
qed

theorem Signals_variable_per_platform_witness:
  "\<not> list_ex assigns [Call_Handle 0, Deliver Interrupt, Run 0 True, Run 1 True, Call_Handle 0] \<and>
   signals_var (run [Call_Handle 0, Deliver Interrupt, Run 0 True, Run 1 True, Call_Handle 0]
                  (init_state Unix_like)) = [Interrupt, SIGTERM] \<and>
   signals_var (step (Assign_Signals [Interrupt]) (init_state Unix_like)) = [Interrupt] \<and>
   wf_state (init_state Unix_like) \<and> valid_ctx (init_state Unix_like) 0 \<and>
   map_of (handlers (step (Call_Handle 0) (init_state Unix_like))) 0 =
     Some (sigmask [Interrupt, SIGTERM])"
proof -
  let ?evs = "[Call_Handle 0, Deliver Interrupt, Run 0 True, Run 1 True, Call_Handle 0]"
  have a: "\<not> list_ex assigns ?evs" by code_simp
  have b: "wf_state (init_state Unix_like)" "valid_ctx (init_state Unix_like) 0" by code_simp+
  have c: "length (chans (init_state Unix_like)) = 0"
    "signals_var (init_state Unix_like) = [Interrupt, SIGTERM]" by code_simp+
  from Signals_variable_per_platform
    [where s = "init_state Unix_like" and evs = ?evs and p = 0 and sigs = "[Interrupt]"]
  show ?thesis using a b c by simp
qed

text \<open>
  C8, as the specification states it, fails: the signal set is not a constant of the
  process. A program on a unix-like platform calls \<open>Handle\<close>, assigns \<open>Signals\<close> and
  calls \<open>Handle\<close> again: the two calls register different signal sets.
\<close>

theorem Signals_is_not_read_only:
  "signals_var (init_state Unix_like) = [Interrupt, SIGTERM] \<and>
   signals_var (run [Call_Handle 0, Assign_Signals [Interrupt]] (init_state Unix_like)) =
     [Interrupt] \<and>
   handlers (run [Call_Handle 0, Assign_Signals [Interrupt], Call_Handle 0]
               (init_state Unix_like)) =
     [(0, {Interrupt, SIGTERM}), (1, {Interrupt})]"
  by code_simp

text \<open>
  C9. \<open>Handle\<close> is the implementation that its documentation comment spells out: on
  every parent, every signal set and every state both give the same result and the same
  state, hence the same behaviour under every later schedule.
\<close>

theorem Handle_is_documented_equivalent:
  "Handle signals ctx s = Handle_doc signals ctx s \<and>
   map_sum id (\<lambda>r. run evs (snd r)) (Handle signals ctx s) =
   map_sum id (\<lambda>r. run evs (snd r)) (Handle_doc signals ctx s)"
proof -
  have "Handle signals ctx s = Handle_doc signals ctx s"
    by (cases "NotifyContext ctx signals s")
       (auto simp: Handle_def Handle_doc_def doc_NotifyContext_step_def doc_go_step_def)
  then show ?thesis by simp
qed

text \<open>
  C10. A nil parent makes \<open>Handle\<close> panic (the panic of \<open>context.WithCancel\<close>, reached
  through \<open>signal.NotifyContext\<close>), and a nil parent is the only input on which
  \<open>Handle\<close> fails.
\<close>

theorem Handle_nil_parent_panics:
  "Handle signals None s = Inl (Panic ''cannot create context from nil parent'') \<and>
   (isl (Handle signals parent s) \<longleftrightarrow> parent = None)"
  by (cases parent) (simp_all add: Handle_None Handle_Some)

end
